theory Spec2Isabelle
  imports Complex_Main "HOL-Library.Word" "HOL-Library.Signed_Division" "HOL-Library.Multiset"
begin

section \<open>The alternating disks problem (disks.hpp)\<close>

text \<open>
  The header defines a row of disks (\<open>disk_state\<close>), the result of a sort
  (\<open>sorted_disks\<close>) and two sorting functions, \<open>sort_alternate\<close> and
  \<open>sort_lawnmower\<close>. The embedding below follows the header function by function.

  Conventions of the embedding.
  \<^item> A \<open>size_t\<close> value is a \<open>nat\<close> (64 bits on the modelled platform). Every index
    the sorting functions compute stays below the length of the vector, so their
    \<open>size_t\<close> arithmetic does not wrap; where a \<open>size_t\<close> product of an arbitrary
    argument can wrap (the constructor), \<open>mod 2 ^ 64\<close> is written out.
  \<^item> An \<open>int\<close> and an \<open>unsigned\<close> are 32 bits wide, two's complement. The swap
    counter is a \<open>32 word\<close>, whose \<open>+\<close> wraps; the conversions \<open>(int)n\<close> and
    \<open>(int)n + 1\<close> of the loop bounds are written out with \<open>sint\<close>. C++ leaves the
    overflow of a signed addition undefined; the embedding wraps, as the machine's
    addition does.
  \<^item> A failed \<open>assert\<close> is an error value: the functions that assert return
    \<open>error + 'a\<close>, with \<open>Inl\<close> for the failure. The header is read as compiled with
    its assertions (without \<open>NDEBUG\<close>).
\<close>

subsection \<open>Disk colours and rows\<close>

datatype disk_color = DISK_LIGHT | DISK_DARK

text \<open>
  Class \<open>disk_state\<close> has one field, the vector \<open>_colors\<close>; a \<open>disk_state\<close> is that
  vector.
\<close>

type_synonym disk_state = "disk_color list"

text \<open>
  \<open>ConstructionError\<close> is the failure of \<open>assert(light_count > 0)\<close>,
  \<open>IndexOutOfRange\<close> the failure of an \<open>assert(is_index(...))\<close>. \<open>LengthError\<close> is
  \<open>std::length_error\<close>, which the constructor of \<open>std::vector\<close> throws when asked for more
  than \<open>max_size()\<close> elements, and \<open>BadAlloc\<close> is \<open>std::bad_alloc\<close>, which it throws
  when the allocator cannot provide the storage.
\<close>

datatype error = ConstructionError | IndexOutOfRange | LengthError | BadAlloc

definition total_count :: "disk_state \<Rightarrow> nat" where
  "total_count s = length s"

definition light_count :: "disk_state \<Rightarrow> nat" where
  "light_count s = total_count s div 2"

definition dark_count :: "disk_state \<Rightarrow> nat" where
  "dark_count s = light_count s"

definition is_index :: "disk_state \<Rightarrow> nat \<Rightarrow> bool" where
  "is_index s i \<longleftrightarrow> i < total_count s"

definition get :: "disk_state \<Rightarrow> nat \<Rightarrow> error + disk_color" where
  "get s index = (if is_index s index then Inr (s ! index) else Inl IndexOutOfRange)"

text \<open>
  \<open>swap\<close> asserts \<open>is_index(left_index)\<close> first, so \<open>left_index + 1\<close> is computed only
  for an index below the length of the vector and does not wrap.
\<close>

definition swap :: "disk_state \<Rightarrow> nat \<Rightarrow> error + disk_state" where
  "swap s left_index =
     (if \<not> is_index s left_index then Inl IndexOutOfRange
      else let right_index = left_index + 1 in
        if \<not> is_index s right_index then Inl IndexOutOfRange
        else Inr (s[left_index := s ! right_index, right_index := s ! left_index]))"

subsection \<open>The constructor\<close>

text \<open>
  \<open>std::vector<disk_color>::max_size()\<close> of libstdc++ on an LP64 platform:
  \<open>PTRDIFF_MAX / sizeof(disk_color)\<close>, with a four-byte enum.
\<close>

definition vector_max_size :: nat where
  "vector_max_size = (2 ^ 63 - 1) div 4"

text \<open>The conversion of an \<open>int\<close> argument to the \<open>size_t\<close> parameter.\<close>

definition size_of_int :: "int \<Rightarrow> nat" where
  "size_of_int k = nat (k mod 2 ^ 64)"

text \<open>The loop \<open>for (size_t i = 1; i < _colors.size(); i += 2) _colors[i] = DISK_DARK\<close>.\<close>

function dark_loop :: "nat \<Rightarrow> disk_state \<Rightarrow> disk_state" where
  "dark_loop i colors =
     (if i < length colors then dark_loop (i + 2) (colors[i := DISK_DARK]) else colors)"
  by pat_completeness auto
termination
  by (relation "measure (\<lambda>(i, colors). length colors - i)") auto

text \<open>
  The constructor \<open>disk_state(size_t light_count)\<close>; its parameter is \<open>n_light\<close> here.
  The member initialiser \<open>_colors(light_count * 2, DISK_LIGHT)\<close> runs first (the product
  is a \<open>size_t\<close> product), then the assertion, then the loop.

  The initialiser is the constructor of \<open>std::vector\<close>, which can fail in two ways. It
  throws \<open>std::length_error\<close> for a size above \<open>max_size()\<close>, before it allocates.
  Otherwise it allocates, and the allocator throws \<open>std::bad_alloc\<close> when it cannot
  provide the storage. How much the allocator can provide is a state of the machine the
  program runs on, not of the program: it is the parameter \<open>available\<close>, counted in
  disks. A vector of size 0 allocates nothing, so that case cannot fail.
\<close>

definition new_disk_state :: "nat \<Rightarrow> nat \<Rightarrow> error + disk_state" where
  "new_disk_state available n_light =
     (let size = (n_light * 2) mod 2 ^ 64 in
      if vector_max_size < size then Inl LengthError
      else if 0 < size \<and> available < size then Inl BadAlloc
      else if \<not> 0 < n_light then Inl ConstructionError
      else Inr (dark_loop 1 (replicate size DISK_LIGHT)))"

subsection \<open>Equality and printing\<close>

text \<open>
  \<open>operator==\<close> is \<open>std::equal(_colors.begin(), _colors.end(), rhs._colors.begin())\<close>:
  the three-iterator form, which compares as many elements as the left row has and never
  looks at the length of the right row. It requires the right range to be at least as
  long; on a shorter one the behaviour is undefined, which is \<open>None\<close> here.
\<close>

fun std_equal :: "disk_color list \<Rightarrow> disk_color list \<Rightarrow> bool" where
  "std_equal [] ys = True"
| "std_equal (x # xs) [] = False"
| "std_equal (x # xs) (y # ys) = (if x = y then std_equal xs ys else False)"

definition operator_eq :: "disk_state \<Rightarrow> disk_state \<Rightarrow> bool option" where
  "operator_eq lhs rhs =
     (if length rhs < length lhs then None else Some (std_equal lhs rhs))"

fun to_string_from :: "bool \<Rightarrow> disk_color list \<Rightarrow> string" where
  "to_string_from first [] = []"
| "to_string_from first (color # colors) =
     (if \<not> first then '' '' else [])
       @ (if color = DISK_LIGHT then ''L'' else ''D'')
       @ to_string_from False colors"

definition to_string :: "disk_state \<Rightarrow> string" where
  "to_string s = to_string_from True s"

subsection \<open>The two shape predicates\<close>

function is_initialized_from :: "nat \<Rightarrow> disk_state \<Rightarrow> bool" where
  "is_initialized_from i s =
     (if i < total_count s then
        (if i mod 2 = 0 then
           (if s ! i = DISK_DARK then False else is_initialized_from (i + 1) s)
         else
           (if s ! i = DISK_LIGHT then False else is_initialized_from (i + 1) s))
      else True)"
  by pat_completeness auto
termination
  by (relation "measure (\<lambda>(i, s). total_count s - i)") auto

definition is_initialized :: "disk_state \<Rightarrow> bool" where
  "is_initialized s = is_initialized_from 0 s"

text \<open>
  \<open>is_sorted\<close> has two loops: the first over \<open>[0, dark_count())\<close>, the second over
  \<open>[dark_count(), dark_count() * 2)\<close>. Both read \<open>_colors[i]\<close> below the length of the
  vector.
\<close>

function is_sorted_light :: "nat \<Rightarrow> disk_state \<Rightarrow> bool" where
  "is_sorted_light i s =
     (if i < dark_count s then
        (if s ! i = DISK_DARK then False else is_sorted_light (i + 1) s)
      else True)"
  by pat_completeness auto
termination
  by (relation "measure (\<lambda>(i, s). dark_count s - i)") auto

function is_sorted_dark :: "nat \<Rightarrow> disk_state \<Rightarrow> bool" where
  "is_sorted_dark i s =
     (if i < dark_count s * 2 then
        (if s ! i = DISK_LIGHT then False else is_sorted_dark (i + 1) s)
      else True)"
  by pat_completeness auto
termination
  by (relation "measure (\<lambda>(i, s). dark_count s * 2 - i)") auto

definition is_sorted :: "disk_state \<Rightarrow> bool" where
  "is_sorted s = (if \<not> is_sorted_light 0 s then False else is_sorted_dark (dark_count s) s)"

subsection \<open>The result of a sort\<close>

text \<open>
  Class \<open>sorted_disks\<close>: the final row and the swap count, an \<open>unsigned\<close>. The sorting
  functions count in an \<open>int\<close> and pass it to the constructor, which keeps its 32 bits.
\<close>

record sorted_disks =
  after :: disk_state
  swap_count :: "32 word"

subsection \<open>Machine arithmetic of the loop bounds\<close>

text \<open>\<open>(int)n\<close> for a \<open>size_t n\<close>: the low 32 bits, read as two's complement.\<close>

definition int_of_size :: "nat \<Rightarrow> int" where
  "int_of_size n = sint (word_of_nat n :: 32 word)"

text \<open>\<open>a + b\<close> on \<open>int\<close>, wrapping.\<close>

definition int_add :: "int \<Rightarrow> int \<Rightarrow> int" where
  "int_add a b = sint (word_of_int (a + b) :: 32 word)"

subsection \<open>sort\_alternate\<close>

text \<open>
  The body of both inner loops:
  \<open>if (after.get(j) == DISK_DARK && after.get(j + 1) == DISK_LIGHT) { after.swap(j); numOfSwap++; }\<close>.
  The second \<open>get\<close> is evaluated only when the first comparison holds. The state of
  the loops is the working copy of the row and the counter.
\<close>

fun alternate_body :: "nat \<Rightarrow> disk_state \<times> 32 word \<Rightarrow> error + disk_state \<times> 32 word" where
  "alternate_body j (disks, numOfSwap) =
     (case get disks j of
        Inl e \<Rightarrow> Inl e
      | Inr c0 \<Rightarrow>
          if c0 = DISK_DARK then
            (case get disks (j + 1) of
               Inl e \<Rightarrow> Inl e
             | Inr c1 \<Rightarrow>
                 if c1 = DISK_LIGHT then
                   (case swap disks j of
                      Inl e \<Rightarrow> Inl e
                    | Inr disks' \<Rightarrow> Inr (disks', numOfSwap + 1))
                 else Inr (disks, numOfSwap))
          else Inr (disks, numOfSwap))"

text \<open>An inner loop \<open>for (size_t j = start; j < limit; j = j + 2)\<close>.\<close>

function alternate_inner ::
  "nat \<Rightarrow> nat \<Rightarrow> disk_state \<times> 32 word \<Rightarrow> error + disk_state \<times> 32 word" where
  "alternate_inner limit j st =
     (if j < limit then
        (case alternate_body j st of
           Inl e \<Rightarrow> Inl e
         | Inr st' \<Rightarrow> alternate_inner limit (j + 2) st')
      else Inr st)"
  by pat_completeness auto
termination
  by (relation "measure (\<lambda>(limit, j, st). limit - j)") auto

text \<open>
  The outer loop \<open>for (int i = 0; i < bound; ++i)\<close>: an even \<open>i\<close> runs the loop from
  0 below \<open>n * 2\<close>, an odd \<open>i\<close> the loop from 1 below \<open>n * 2 - 2\<close>. The function is
  entered with \<open>n > 0\<close> only, so the subtraction does not wrap.
\<close>

function alternate_outer ::
  "int \<Rightarrow> nat \<Rightarrow> int \<Rightarrow> disk_state \<times> 32 word \<Rightarrow> error + disk_state \<times> 32 word" where
  "alternate_outer bound n i st =
     (if i < bound then
        (case (if i mod 2 = 0 then alternate_inner (n * 2) 0 st
               else alternate_inner (n * 2 - 2) 1 st) of
           Inl e \<Rightarrow> Inl e
         | Inr st' \<Rightarrow> alternate_outer bound n (i + 1) st')
      else Inr st)"
  by pat_completeness auto
termination
  by (relation "measure (\<lambda>(bound, n, i, st). nat (bound - i))") auto

definition sort_alternate :: "disk_state \<Rightarrow> error + sorted_disks" where
  "sort_alternate before =
     (let numOfSwap = 0;
          disks = before;
          n = total_count disks div 2
      in if n = 0 then Inr \<lparr>after = disks, swap_count = numOfSwap\<rparr>
         else
           (case alternate_outer (int_add (int_of_size n) 1) n 0 (disks, numOfSwap) of
              Inl e \<Rightarrow> Inl e
            | Inr (disks', numOfSwap') \<Rightarrow> Inr \<lparr>after = disks', swap_count = numOfSwap'\<rparr>))"

subsection \<open>sort\_lawnmower\<close>

text \<open>
  The state of the two sweeps is the working copy, the counter and \<open>hasSwap\<close>.
  Forward: \<open>if (after.get(j) == DISK_DARK && after.get(j + 1) == DISK_LIGHT)\<close>;
  backward: \<open>if (after.get(j) == DISK_LIGHT && after.get(j - 1) == DISK_DARK)\<close>, swapping at
  \<open>j - 1\<close>.
\<close>

fun forward_body ::
  "nat \<Rightarrow> disk_state \<times> 32 word \<times> bool \<Rightarrow> error + disk_state \<times> 32 word \<times> bool" where
  "forward_body j (disks, numOfSwap, hasSwap) =
     (case get disks j of
        Inl e \<Rightarrow> Inl e
      | Inr c0 \<Rightarrow>
          if c0 = DISK_DARK then
            (case get disks (j + 1) of
               Inl e \<Rightarrow> Inl e
             | Inr c1 \<Rightarrow>
                 if c1 = DISK_LIGHT then
                   (case swap disks j of
                      Inl e \<Rightarrow> Inl e
                    | Inr disks' \<Rightarrow> Inr (disks', numOfSwap + 1, True))
                 else Inr (disks, numOfSwap, hasSwap))
          else Inr (disks, numOfSwap, hasSwap))"

fun backward_body ::
  "nat \<Rightarrow> disk_state \<times> 32 word \<times> bool \<Rightarrow> error + disk_state \<times> 32 word \<times> bool" where
  "backward_body j (disks, numOfSwap, hasSwap) =
     (case get disks j of
        Inl e \<Rightarrow> Inl e
      | Inr c0 \<Rightarrow>
          if c0 = DISK_LIGHT then
            (case get disks (j - 1) of
               Inl e \<Rightarrow> Inl e
             | Inr c1 \<Rightarrow>
                 if c1 = DISK_DARK then
                   (case swap disks (j - 1) of
                      Inl e \<Rightarrow> Inl e
                    | Inr disks' \<Rightarrow> Inr (disks', numOfSwap + 1, True))
                 else Inr (disks, numOfSwap, hasSwap))
          else Inr (disks, numOfSwap, hasSwap))"

text \<open>\<open>for (size_t j = 0; j < 2 * n - 1; ++j)\<close>.\<close>

function forward_sweep ::
  "nat \<Rightarrow> nat \<Rightarrow> disk_state \<times> 32 word \<times> bool \<Rightarrow> error + disk_state \<times> 32 word \<times> bool" where
  "forward_sweep limit j st =
     (if j < limit then
        (case forward_body j st of
           Inl e \<Rightarrow> Inl e
         | Inr st' \<Rightarrow> forward_sweep limit (j + 1) st')
      else Inr st)"
  by pat_completeness auto
termination
  by (relation "measure (\<lambda>(limit, j, st). limit - j)") auto

text \<open>\<open>for (size_t j = 2 * n - 1; j > 0; --j)\<close>.\<close>

function backward_sweep ::
  "nat \<Rightarrow> disk_state \<times> 32 word \<times> bool \<Rightarrow> error + disk_state \<times> 32 word \<times> bool" where
  "backward_sweep j st =
     (if j > 0 then
        (case backward_body j st of
           Inl e \<Rightarrow> Inl e
         | Inr st' \<Rightarrow> backward_sweep (j - 1) st')
      else Inr st)"
  by pat_completeness auto
termination
  by (relation "measure (\<lambda>(j, st). j)") auto

text \<open>
  The bound of the outer loop is \<open>std::ceil((int)n / 2)\<close>. The division is a division of
  two \<open>int\<close>s, which truncates (\<open>sdiv\<close>); its quotient is converted to \<open>double\<close> and
  \<open>std::ceil\<close> rounds that up. The comparison \<open>i < bound\<close> is between a 32-bit
  \<open>int\<close> and a \<open>double\<close> that holds an integer, both exact, so it is the comparison of
  the integers.
\<close>

definition lawnmower_bound :: "nat \<Rightarrow> int" where
  "lawnmower_bound n = \<lceil>real_of_int (int_of_size n sdiv 2)\<rceil>"

text \<open>
  The outer loop \<open>for (int i = 0; i < bound; ++i)\<close>, one double-pass per round, left by
  \<open>break\<close> after a round without a swap. Besides the row and the counter the function
  returns the number of double-passes it has run: \<open>i\<close> when the loop condition fails,
  \<open>i + 1\<close> at the \<open>break\<close>. The loop body is entered with \<open>(int)n / 2 > 0\<close> only, hence
  \<open>n \<ge> 2\<close>, and \<open>2 * n - 1\<close> does not wrap.
\<close>

function lawnmower_outer ::
  "int \<Rightarrow> nat \<Rightarrow> int \<Rightarrow> disk_state \<times> 32 word \<Rightarrow> error + disk_state \<times> 32 word \<times> int" where
  "lawnmower_outer bound n i st =
     (if i < bound then
        (case forward_sweep (2 * n - 1) 0 (fst st, snd st, False) of
           Inl e \<Rightarrow> Inl e
         | Inr st1 \<Rightarrow>
             (case backward_sweep (2 * n - 1) st1 of
                Inl e \<Rightarrow> Inl e
              | Inr (disks', numOfSwap', hasSwap) \<Rightarrow>
                  if \<not> hasSwap then Inr (disks', numOfSwap', i + 1)
                  else lawnmower_outer bound n (i + 1) (disks', numOfSwap')))
      else Inr (fst st, snd st, i))"
  by pat_completeness auto
termination
  by (relation "measure (\<lambda>(bound, n, i, st). nat (bound - i))") auto

text \<open>
  \<open>lawnmower_run\<close> is \<open>sort_lawnmower\<close> up to its \<open>return\<close>: the final row, the
  counter and the number of double-passes run.
\<close>

definition lawnmower_run :: "disk_state \<Rightarrow> error + disk_state \<times> 32 word \<times> int" where
  "lawnmower_run before =
     (let numOfSwap = 0;
          disks = before;
          n = total_count disks div 2
      in lawnmower_outer (lawnmower_bound n) n 0 (disks, numOfSwap))"

definition sort_lawnmower :: "disk_state \<Rightarrow> error + sorted_disks" where
  "sort_lawnmower before =
     (case lawnmower_run before of
        Inl e \<Rightarrow> Inl e
      | Inr (disks', numOfSwap', passes) \<Rightarrow> Inr \<lparr>after = disks', swap_count = numOfSwap'\<rparr>)"

section \<open>Definitions used in the proofs\<close>

text \<open>
  None of the definitions of this section is code of the header: they name the list
  functions the loops compute and the rows the sorts pass through.
\<close>

subsection \<open>A finite sequence of swaps\<close>

text \<open>
  \<open>swaps s js\<close> calls \<open>swap\<close> at each index of \<open>js\<close> in turn, on the row the
  previous call left, and stops at the first failure.
\<close>

fun swaps :: "disk_state \<Rightarrow> nat list \<Rightarrow> error + disk_state" where
  "swaps s [] = Inr s"
| "swaps s (i # rest) = (case swap s i of Inl e \<Rightarrow> Inl e | Inr s' \<Rightarrow> swaps s' rest)"

subsection \<open>What a pass and a sweep compute\<close>

text \<open>
  \<open>pairs_fix\<close> exchanges every out-of-order pair among the disjoint pairs
  (0, 1), (2, 3), ... of a list: one inner loop of \<open>sort_alternate\<close>, on the part of
  the row from its start index. \<open>fwd\<close> is the forward sweep of \<open>sort_lawnmower\<close> over
  all adjacent pairs from the left, \<open>bwd\<close> its backward sweep from the right (the pairs
  of the tail first, the pair at the head last). The \<open>_swaps\<close> functions count the
  exchanges.
\<close>

fun pairs_fix :: "disk_color list \<Rightarrow> disk_color list" where
  "pairs_fix (a # b # rest) =
     (if a = DISK_DARK \<and> b = DISK_LIGHT then b # a # pairs_fix rest
      else a # b # pairs_fix rest)"
| "pairs_fix [x] = [x]"
| "pairs_fix [] = []"

fun pairs_swaps :: "disk_color list \<Rightarrow> nat" where
  "pairs_swaps (a # b # rest) =
     (if a = DISK_DARK \<and> b = DISK_LIGHT then Suc (pairs_swaps rest) else pairs_swaps rest)"
| "pairs_swaps [x] = 0"
| "pairs_swaps [] = 0"

fun fwd :: "disk_color list \<Rightarrow> disk_color list" where
  "fwd (a # b # rest) =
     (if a = DISK_DARK \<and> b = DISK_LIGHT then b # fwd (a # rest) else a # fwd (b # rest))"
| "fwd [x] = [x]"
| "fwd [] = []"

fun fwd_swaps :: "disk_color list \<Rightarrow> nat" where
  "fwd_swaps (a # b # rest) =
     (if a = DISK_DARK \<and> b = DISK_LIGHT then Suc (fwd_swaps (a # rest)) else fwd_swaps (b # rest))"
| "fwd_swaps [x] = 0"
| "fwd_swaps [] = 0"

fun bwd :: "disk_color list \<Rightarrow> disk_color list" where
  "bwd [] = []"
| "bwd (x # xs) =
     (case bwd xs of
        [] \<Rightarrow> [x]
      | y # ys \<Rightarrow> if y = DISK_LIGHT \<and> x = DISK_DARK then y # x # ys else x # y # ys)"

fun bwd_swaps :: "disk_color list \<Rightarrow> nat" where
  "bwd_swaps [] = 0"
| "bwd_swaps (x # xs) =
     (case bwd xs of
        [] \<Rightarrow> 0
      | y # ys \<Rightarrow> if y = DISK_LIGHT \<and> x = DISK_DARK then Suc (bwd_swaps xs) else bwd_swaps xs)"

subsection \<open>The rows of an initialized input\<close>

text \<open>
  \<open>alternating n\<close> is the initialized row of \<open>2 * n\<close> disks, light first.
  \<open>row_at a m\<close> is \<open>a\<close> light disks, then the alternating row of \<open>2 * m\<close> disks,
  then \<open>a\<close> dark disks: the row both sorts hold after \<open>a\<close> effective passes over
  \<open>alternating (a + m)\<close>. \<open>in_order x y\<close> says that \<open>x\<close> may stand left of \<open>y\<close>;
  \<open>tri k\<close> is \<open>0 + 1 + ... + k\<close>; \<open>expected k\<close> is the colour an initialized row has
  at index \<open>k\<close>.
\<close>

definition alternating :: "nat \<Rightarrow> disk_state" where
  "alternating n = concat (replicate n [DISK_LIGHT, DISK_DARK])"

definition dark_first :: "nat \<Rightarrow> disk_state" where
  "dark_first n = concat (replicate n [DISK_DARK, DISK_LIGHT])"

definition row_at :: "nat \<Rightarrow> nat \<Rightarrow> disk_state" where
  "row_at a m = replicate a DISK_LIGHT @ alternating m @ replicate a DISK_DARK"

definition in_order :: "disk_color \<Rightarrow> disk_color \<Rightarrow> bool" where
  "in_order x y \<longleftrightarrow> x = DISK_LIGHT \<or> y = DISK_DARK"

definition tri :: "nat \<Rightarrow> nat" where
  "tri k = k * (k + 1) div 2"

definition expected :: "nat \<Rightarrow> disk_color" where
  "expected k = (if even k then DISK_LIGHT else DISK_DARK)"

text \<open>
  The loops are unfolded one round at a time, by hand.
\<close>

declare dark_loop.simps [simp del] is_initialized_from.simps [simp del]
  is_sorted_light.simps [simp del] is_sorted_dark.simps [simp del]
  alternate_inner.simps [simp del] alternate_outer.simps [simp del]
  forward_sweep.simps [simp del] backward_sweep.simps [simp del]
  lawnmower_outer.simps [simp del] alternate_body.simps [simp del]
  forward_body.simps [simp del] backward_body.simps [simp del]

section \<open>The loops as list functions\<close>

text \<open>
  Each index loop of the sorting functions computes the list function named after it:
  the proofs are by induction along the list function, with the part of the row already
  passed as a prefix.
\<close>

lemma get_in_range: "i < length s \<Longrightarrow> get s i = Inr (s ! i)"
  by (simp add: get_def is_index_def total_count_def)

lemma swap_in_range:
  "Suc i < length s \<Longrightarrow> swap s i = Inr (s[i := s ! Suc i, Suc i := s ! i])"
  by (simp add: swap_def is_index_def total_count_def)

lemma swap_append:
  "length pre = j \<Longrightarrow> swap (pre @ a # b # rest) j = Inr (pre @ b # a # rest)"
  by (simp add: swap_in_range nth_append list_update_append)

lemma alternate_body_append:
  "length pre = j \<Longrightarrow>
   alternate_body j (pre @ a # b # rest, c) =
     Inr (if a = DISK_DARK \<and> b = DISK_LIGHT then (pre @ b # a # rest, c + 1)
          else (pre @ a # b # rest, c))"
  by (simp add: alternate_body.simps forward_body.simps backward_body.simps get_in_range swap_append nth_append)

lemma alternate_inner_struct:
  "length pre = j \<Longrightarrow> (limit - j + 1) div 2 = length rest div 2 \<Longrightarrow>
   alternate_inner limit j (pre @ rest, c) =
     Inr (pre @ pairs_fix rest, c + of_nat (pairs_swaps rest))"
proof (induction rest arbitrary: pre j c rule: pairs_fix.induct)
  case (1 a b rest)
  from "1.prems" have lt: "j < limit" by simp
  let ?pre' = "pre @ (if a = DISK_DARK \<and> b = DISK_LIGHT then [b, a] else [a, b])"
  have len: "length ?pre' = j + 2" using "1.prems" by simp
  have lim: "(limit - (j + 2) + 1) div 2 = length rest div 2"
    using "1.prems" by simp
  show ?case
  proof (cases "a = DISK_DARK \<and> b = DISK_LIGHT")
    case True
    have "alternate_inner limit (j + 2) ((pre @ [b, a]) @ rest, c + 1) =
        Inr ((pre @ [b, a]) @ pairs_fix rest, c + 1 + of_nat (pairs_swaps rest))"
      using "1.IH"(1) [OF True, of "pre @ [b, a]" "j + 2" "c + 1"] len lim True by simp
    then show ?thesis
      using True lt "1.prems"(1)
      by (subst alternate_inner.simps) (simp add: alternate_body_append)
  next
    case False
    have "alternate_inner limit (j + 2) ((pre @ [a, b]) @ rest, c) =
        Inr ((pre @ [a, b]) @ pairs_fix rest, c + of_nat (pairs_swaps rest))"
      using "1.IH"(2) [OF False, of "pre @ [a, b]" "j + 2" c] len lim False by simp
    then show ?thesis
      using False lt "1.prems"(1)
      by (subst alternate_inner.simps) (auto simp add: alternate_body_append)
  qed
next
  case 3
  then have "\<not> j < limit" by simp
  then show ?case by (subst alternate_inner.simps) simp
next
  case (2 v)
  then have "\<not> j < limit" by simp
  then show ?case by (subst alternate_inner.simps) simp
qed

lemma forward_body_append:
  "length pre = j \<Longrightarrow>
   forward_body j (pre @ a # b # rest, c, h) =
     Inr (if a = DISK_DARK \<and> b = DISK_LIGHT then (pre @ b # a # rest, c + 1, True)
          else (pre @ a # b # rest, c, h))"
  by (simp add: alternate_body.simps forward_body.simps backward_body.simps get_in_range swap_append nth_append)

lemma forward_sweep_struct:
  "length pre = j \<Longrightarrow> limit = j + length rest - 1 \<Longrightarrow>
   forward_sweep limit j (pre @ rest, c, h) =
     Inr (pre @ fwd rest, c + of_nat (fwd_swaps rest), h \<or> 0 < fwd_swaps rest)"
proof (induction rest arbitrary: pre j c h rule: fwd.induct)
  case (1 a b rest)
  from "1.prems" have lt: "j < limit" by simp
  show ?case
  proof (cases "a = DISK_DARK \<and> b = DISK_LIGHT")
    case True
    have "forward_sweep limit (j + 1) ((pre @ [b]) @ a # rest, c + 1, True) =
        Inr ((pre @ [b]) @ fwd (a # rest), c + 1 + of_nat (fwd_swaps (a # rest)),
             True \<or> 0 < fwd_swaps (a # rest))"
      using "1.IH"(1) [OF True, of "pre @ [b]" "j + 1" "c + 1" True] "1.prems" by simp
    then show ?thesis
      using True lt "1.prems"(1)
      by (subst forward_sweep.simps) (simp add: forward_body_append)
  next
    case False
    have "forward_sweep limit (j + 1) ((pre @ [a]) @ b # rest, c, h) =
        Inr ((pre @ [a]) @ fwd (b # rest), c + of_nat (fwd_swaps (b # rest)),
             h \<or> 0 < fwd_swaps (b # rest))"
      using "1.IH"(2) [OF False, of "pre @ [a]" "j + 1" c h] "1.prems" by simp
    then show ?thesis
      using False lt "1.prems"(1)
      by (subst forward_sweep.simps) (auto simp add: forward_body_append)
  qed
next
  case 3
  then have "\<not> j < limit" by simp
  then show ?case by (subst forward_sweep.simps) simp
next
  case (2 v)
  then have "\<not> j < limit" by simp
  then show ?case by (subst forward_sweep.simps) simp
qed

lemma bwd_Nil_iff: "bwd xs = [] \<longleftrightarrow> xs = []"
  by (cases xs) (auto split: list.splits)

lemma bwd_snoc2:
  "bwd (us @ [a, b]) =
     (if b = DISK_LIGHT \<and> a = DISK_DARK then bwd (us @ [b]) @ [a] else bwd (us @ [a]) @ [b])"
proof (induction us)
  case Nil
  show ?case by simp
next
  case (Cons u us)
  show ?case
  proof (cases "b = DISK_LIGHT \<and> a = DISK_DARK")
    case True
    obtain y ys where ys: "bwd (us @ [b]) = y # ys"
      using bwd_Nil_iff [of "us @ [b]"] by (cases "bwd (us @ [b])") auto
    show ?thesis using Cons True ys by simp
  next
    case False
    obtain y ys where ys: "bwd (us @ [a]) = y # ys"
      using bwd_Nil_iff [of "us @ [a]"] by (cases "bwd (us @ [a])") auto
    show ?thesis using Cons False ys by auto
  qed
qed

lemma bwd_swaps_snoc2:
  "bwd_swaps (us @ [a, b]) =
     (if b = DISK_LIGHT \<and> a = DISK_DARK then Suc (bwd_swaps (us @ [b])) else bwd_swaps (us @ [a]))"
proof (induction us)
  case Nil
  show ?case by simp
next
  case (Cons u us)
  show ?case
  proof (cases "b = DISK_LIGHT \<and> a = DISK_DARK")
    case True
    obtain y ys where ys: "bwd (us @ [b]) = y # ys"
      using bwd_Nil_iff [of "us @ [b]"] by (cases "bwd (us @ [b])") auto
    show ?thesis using Cons True ys by (simp add: bwd_snoc2)
  next
    case False
    obtain y ys where ys: "bwd (us @ [a]) = y # ys"
      using bwd_Nil_iff [of "us @ [a]"] by (cases "bwd (us @ [a])") auto
    show ?thesis using Cons False ys by (auto simp add: bwd_snoc2)
  qed
qed

lemma backward_body_append:
  "length us = k \<Longrightarrow>
   backward_body (Suc k) (us @ a # b # zs, c, h) =
     Inr (if b = DISK_LIGHT \<and> a = DISK_DARK then (us @ b # a # zs, c + 1, True)
          else (us @ a # b # zs, c, h))"
  by (simp add: alternate_body.simps forward_body.simps backward_body.simps get_in_range swap_append nth_append)

lemma backward_sweep_struct:
  "length ys = Suc j \<Longrightarrow>
   backward_sweep j (ys @ zs, c, h) =
     Inr (bwd ys @ zs, c + of_nat (bwd_swaps ys), h \<or> 0 < bwd_swaps ys)"
proof (induction j arbitrary: ys zs c h)
  case 0
  then obtain x where "ys = [x]" by (cases ys) auto
  then show ?case by (subst backward_sweep.simps) simp
next
  case (Suc k)
  then obtain us a b where ys: "ys = us @ [a, b]" and len: "length us = k"
    by (metis (no_types) append_butlast_last_id butlast_snoc length_0_conv length_append_singleton
        nat.inject nat.simps(3) append.assoc append_Cons append_Nil)
  show ?case
  proof (cases "b = DISK_LIGHT \<and> a = DISK_DARK")
    case True
    have "backward_sweep k ((us @ [b]) @ a # zs, c + 1, True) =
        Inr (bwd (us @ [b]) @ a # zs, c + 1 + of_nat (bwd_swaps (us @ [b])),
             True \<or> 0 < bwd_swaps (us @ [b]))"
      using Suc.IH [of "us @ [b]" "a # zs" "c + 1" True] len by simp
    then show ?thesis
      using True len ys
      by (subst backward_sweep.simps) (simp add: backward_body_append bwd_snoc2 bwd_swaps_snoc2)
  next
    case False
    have "backward_sweep k ((us @ [a]) @ b # zs, c, h) =
        Inr (bwd (us @ [a]) @ b # zs, c + of_nat (bwd_swaps (us @ [a])),
             h \<or> 0 < bwd_swaps (us @ [a]))"
      using Suc.IH [of "us @ [a]" "b # zs" c h] len by simp
    then show ?thesis
      using False len ys
      by (subst backward_sweep.simps) (auto simp add: backward_body_append bwd_snoc2 bwd_swaps_snoc2)
  qed
qed

section \<open>The rows both sorts pass through\<close>

subsection \<open>Rows of the family\<close>

lemma alternating_0 [simp]: "alternating 0 = []"
  by (simp add: alternating_def)

lemma alternating_Suc [simp]: "alternating (Suc n) = DISK_LIGHT # DISK_DARK # alternating n"
  by (simp add: alternating_def)

lemma dark_first_0 [simp]: "dark_first 0 = []"
  by (simp add: dark_first_def)

lemma dark_first_Suc [simp]: "dark_first (Suc n) = DISK_DARK # DISK_LIGHT # dark_first n"
  by (simp add: dark_first_def)

lemma length_alternating [simp]: "length (alternating n) = 2 * n"
  by (induction n) simp_all

lemma length_dark_first [simp]: "length (dark_first n) = 2 * n"
  by (induction n) simp_all

lemma length_row_at [simp]: "length (row_at a m) = 2 * (a + m)"
  by (simp add: row_at_def)

lemma alternating_dark_first:
  "alternating (Suc m) = DISK_LIGHT # dark_first m @ [DISK_DARK]"
  by (induction m) simp_all

lemma row_at_0 [simp]: "row_at 0 m = alternating m"
  by (simp add: row_at_def)

lemma row_at_Suc_dark_first:
  "row_at a (Suc m) =
     replicate (Suc a) DISK_LIGHT @ dark_first m @ replicate (Suc a) DISK_DARK"
  by (simp add: row_at_def alternating_dark_first replicate_append_same del: alternating_Suc)

lemma row_at_sorted: "row_at n 0 = replicate n DISK_LIGHT @ replicate n DISK_DARK"
  by (simp add: row_at_def)

lemma row_at_last: "row_at a (Suc 0) = row_at (Suc a) 0"
  by (simp add: row_at_def replicate_append_same)

lemma in_order_same: "in_order x x"
  by (cases x) (simp_all add: in_order_def)

lemma sorted_wrt_same [simp]: "sorted_wrt in_order (replicate n x)"
  by (induction n) (simp_all add: in_order_same)

lemma sorted_wrt_row: "sorted_wrt in_order (replicate a DISK_LIGHT @ replicate b DISK_DARK)"
  by (simp add: sorted_wrt_append in_order_def)

lemma tri_0 [simp]: "tri 0 = 0"
  by (simp add: tri_def)

lemma tri_Suc: "tri (Suc k) = Suc k + tri k"
  by (simp add: tri_def)

subsection \<open>A pass over adjacent pairs\<close>

lemma pairs_fix_dark_first:
  "pairs_fix (dark_first k @ xs) = alternating k @ pairs_fix xs"
  by (induction k) simp_all

lemma pairs_swaps_dark_first:
  "pairs_swaps (dark_first k @ xs) = k + pairs_swaps xs"
  by (induction k) simp_all

lemma pairs_fix_alternating:
  "pairs_fix (alternating k @ xs) = alternating k @ pairs_fix xs"
  by (induction k) simp_all

lemma pairs_swaps_alternating:
  "pairs_swaps (alternating k @ xs) = pairs_swaps xs"
  by (induction k) simp_all

lemma pairs_fix_light2:
  "pairs_fix (replicate (2 * k) DISK_LIGHT @ xs) = replicate (2 * k) DISK_LIGHT @ pairs_fix xs"
  by (induction k) simp_all

lemma pairs_swaps_light2:
  "pairs_swaps (replicate (2 * k) DISK_LIGHT @ xs) = pairs_swaps xs"
  by (induction k) simp_all

lemma pairs_fix_in_order: "sorted_wrt in_order xs \<Longrightarrow> pairs_fix xs = xs"
  by (induction xs rule: pairs_fix.induct) (auto simp add: in_order_def)

lemma pairs_swaps_in_order: "sorted_wrt in_order xs \<Longrightarrow> pairs_swaps xs = 0"
  by (induction xs rule: pairs_swaps.induct) (auto simp add: in_order_def)

subsection \<open>A sweep over all adjacent pairs\<close>

lemma fwd_light: "fwd (DISK_LIGHT # xs) = DISK_LIGHT # fwd xs"
  by (cases xs) simp_all

lemma fwd_swaps_light: "fwd_swaps (DISK_LIGHT # xs) = fwd_swaps xs"
  by (cases xs) simp_all

lemma fwd_lights: "fwd (replicate a DISK_LIGHT @ xs) = replicate a DISK_LIGHT @ fwd xs"
  by (induction a) (simp_all add: fwd_light)

lemma fwd_swaps_lights: "fwd_swaps (replicate a DISK_LIGHT @ xs) = fwd_swaps xs"
  by (induction a) (simp_all add: fwd_swaps_light)

lemma fwd_in_order: "sorted_wrt in_order xs \<Longrightarrow> fwd xs = xs"
  by (induction xs rule: fwd.induct) (auto simp add: in_order_def)

lemma fwd_swaps_in_order: "sorted_wrt in_order xs \<Longrightarrow> fwd_swaps xs = 0"
  by (induction xs rule: fwd_swaps.induct) (auto simp add: in_order_def)

lemma fwd_dark_alternating:
  "fwd (DISK_DARK # alternating k @ replicate b DISK_DARK) =
     alternating k @ DISK_DARK # replicate b DISK_DARK"
proof (induction k)
  case 0
  have "sorted_wrt in_order (DISK_DARK # replicate b DISK_DARK)"
    by (simp add: in_order_def)
  then show ?case by (simp add: fwd_in_order del: fwd.simps)
next
  case (Suc k)
  then show ?case by simp
qed

lemma fwd_swaps_dark_alternating:
  "fwd_swaps (DISK_DARK # alternating k @ replicate b DISK_DARK) = k"
proof (induction k)
  case 0
  have "sorted_wrt in_order (DISK_DARK # replicate b DISK_DARK)"
    by (simp add: in_order_def)
  then show ?case by (simp add: fwd_swaps_in_order del: fwd_swaps.simps)
next
  case (Suc k)
  then show ?case by simp
qed

lemma fwd_row_at: "fwd (row_at a (Suc m)) = row_at (Suc a) m"
  by (simp add: row_at_def fwd_lights fwd_light fwd_dark_alternating replicate_append_same
      del: fwd.simps)

lemma fwd_swaps_row_at: "fwd_swaps (row_at a (Suc m)) = m"
  by (simp add: row_at_def fwd_swaps_lights fwd_swaps_light fwd_swaps_dark_alternating
      del: fwd_swaps.simps)

lemma bwd_light: "bwd (DISK_LIGHT # xs) = DISK_LIGHT # bwd xs"
  by (simp split: list.splits)

lemma bwd_swaps_light: "bwd_swaps (DISK_LIGHT # xs) = bwd_swaps xs"
  by (simp add: bwd_Nil_iff split: list.splits)

lemma bwd_lights: "bwd (replicate a DISK_LIGHT @ xs) = replicate a DISK_LIGHT @ bwd xs"
  by (induction a) (simp_all add: bwd_light del: bwd.simps)

lemma bwd_swaps_lights: "bwd_swaps (replicate a DISK_LIGHT @ xs) = bwd_swaps xs"
  by (induction a) (simp_all add: bwd_swaps_light del: bwd_swaps.simps)

lemma bwd_in_order: "sorted_wrt in_order xs \<Longrightarrow> bwd xs = xs"
  by (induction xs) (auto simp add: in_order_def split: list.splits)

lemma bwd_swaps_in_order: "sorted_wrt in_order xs \<Longrightarrow> bwd_swaps xs = 0"
  by (induction xs) (auto simp add: in_order_def bwd_in_order split: list.splits)

lemma bwd_Cons_Cons:
  "bwd xs = y # ys \<Longrightarrow>
   bwd (x # xs) = (if y = DISK_LIGHT \<and> x = DISK_DARK then y # x # ys else x # y # ys)"
  by simp

lemma bwd_swaps_Cons_Cons:
  "bwd xs = y # ys \<Longrightarrow>
   bwd_swaps (x # xs) =
     (if y = DISK_LIGHT \<and> x = DISK_DARK then Suc (bwd_swaps xs) else bwd_swaps xs)"
  by simp

lemma bwd_dark_alternating:
  "bwd (DISK_DARK # alternating k @ replicate b DISK_DARK) =
     alternating k @ DISK_DARK # replicate b DISK_DARK"
proof (induction k)
  case 0
  have "sorted_wrt in_order (DISK_DARK # replicate b DISK_DARK)"
    by (simp add: in_order_def)
  then show ?case by (simp add: bwd_in_order del: bwd.simps)
next
  case (Suc k)
  have "bwd (DISK_LIGHT # DISK_DARK # alternating k @ replicate b DISK_DARK) =
      DISK_LIGHT # alternating k @ DISK_DARK # replicate b DISK_DARK"
    using Suc by (simp only: bwd_light)
  then show ?case
    by (simp add: bwd_Cons_Cons del: bwd.simps)
qed

lemma bwd_swaps_dark_alternating:
  "bwd_swaps (DISK_DARK # alternating k @ replicate b DISK_DARK) = k"
proof (induction k)
  case 0
  have "sorted_wrt in_order (DISK_DARK # replicate b DISK_DARK)"
    by (simp add: in_order_def)
  then show ?case by (simp add: bwd_swaps_in_order del: bwd_swaps.simps)
next
  case (Suc k)
  have "bwd (DISK_LIGHT # DISK_DARK # alternating k @ replicate b DISK_DARK) =
      DISK_LIGHT # alternating k @ DISK_DARK # replicate b DISK_DARK"
    by (simp only: bwd_light bwd_dark_alternating)
  then show ?case
    using Suc by (simp add: bwd_swaps_Cons_Cons bwd_swaps_light del: bwd.simps bwd_swaps.simps)
qed

lemma bwd_row_at: "bwd (row_at a (Suc m)) = row_at (Suc a) m"
  by (simp add: row_at_def bwd_lights bwd_light bwd_dark_alternating replicate_append_same
      del: bwd.simps)

lemma bwd_swaps_row_at: "bwd_swaps (row_at a (Suc m)) = m"
  by (simp add: row_at_def bwd_swaps_lights bwd_swaps_light bwd_swaps_dark_alternating
      del: bwd_swaps.simps)

subsection \<open>The passes of sort\_alternate on the family\<close>

lemma even_pass_struct:
  "length xs = n * 2 \<Longrightarrow>
   alternate_inner (n * 2) 0 (xs, c) = Inr (pairs_fix xs, c + of_nat (pairs_swaps xs))"
  using alternate_inner_struct [of "[]" 0 "n * 2" xs c] by simp

lemma odd_pass_struct:
  "length xs = n * 2 - 1 \<Longrightarrow> 0 < n \<Longrightarrow>
   alternate_inner (n * 2 - 2) 1 (x # xs, c) =
     Inr (x # pairs_fix xs, c + of_nat (pairs_swaps xs))"
proof -
  assume len: "length xs = n * 2 - 1" and n: "0 < n"
  have "(n * 2 - 2 - 1 + 1) div 2 = length xs div 2"
    using len n by (cases n) simp_all
  then show ?thesis
    using alternate_inner_struct [of "[x]" 1 "n * 2 - 2" xs c] by simp
qed

lemma pass_step:
  assumes n: "n = Suc a + m"
  shows "(if int (Suc a) mod 2 = 0 then alternate_inner (n * 2) 0 (row_at a (Suc m), c)
          else alternate_inner (n * 2 - 2) 1 (row_at a (Suc m), c)) =
         Inr (row_at (Suc a) m, c + of_nat m)"
proof (cases "even (Suc a)")
  case True
  then obtain b where b: "Suc a = 2 * b" by (blast elim: evenE)
  have fx: "pairs_fix (row_at a (Suc m)) = row_at (Suc a) m"
    unfolding row_at_Suc_dark_first b
    by (simp add: pairs_fix_light2 pairs_fix_dark_first pairs_fix_in_order row_at_def b
        in_order_def)
  have cnt: "pairs_swaps (row_at a (Suc m)) = m"
    unfolding row_at_Suc_dark_first b
    by (simp add: pairs_swaps_light2 pairs_swaps_dark_first pairs_swaps_in_order in_order_def)
  have "int (Suc a) mod 2 = 0" using True by presburger
  then show ?thesis
    using even_pass_struct [of "row_at a (Suc m)" n c] n fx cnt by simp
next
  case False
  then have "even a" by simp
  then obtain b where b: "a = 2 * b" by (blast elim: evenE)
  have row: "row_at a (Suc m) =
      DISK_LIGHT # (replicate (2 * b) DISK_LIGHT @ dark_first m @ replicate (Suc a) DISK_DARK)"
    unfolding row_at_Suc_dark_first b by simp
  have fx: "DISK_LIGHT #
      pairs_fix (replicate (2 * b) DISK_LIGHT @ dark_first m @ replicate (Suc a) DISK_DARK) =
      row_at (Suc a) m"
    by (simp add: pairs_fix_light2 pairs_fix_dark_first pairs_fix_in_order row_at_def b
        in_order_def)
  have cnt: "pairs_swaps (replicate (2 * b) DISK_LIGHT @ dark_first m @ replicate (Suc a) DISK_DARK) = m"
    by (simp add: pairs_swaps_light2 pairs_swaps_dark_first pairs_swaps_in_order in_order_def)
  have len: "length (replicate (2 * b) DISK_LIGHT @ dark_first m @ replicate (Suc a) DISK_DARK)
      = n * 2 - 1"
    using n b by simp
  have "int (Suc a) mod 2 \<noteq> 0" using False by presburger
  then show ?thesis
    using odd_pass_struct [OF len, of DISK_LIGHT c] n fx cnt row by simp
qed

lemma alternate_outer_family:
  "alternate_outer (int (a + k) + 1) (a + k) (int (Suc a)) (row_at a k, c) =
     Inr (row_at (a + k) 0, c + of_nat (tri (k - 1)))"
proof (induction k arbitrary: a c)
  case 0
  show ?case by (subst alternate_outer.simps) simp
next
  case (Suc m)
  have step: "(if int (Suc a) mod 2 = 0
        then alternate_inner ((a + Suc m) * 2) 0 (row_at a (Suc m), c)
        else alternate_inner ((a + Suc m) * 2 - 2) 1 (row_at a (Suc m), c)) =
      Inr (row_at (Suc a) m, c + of_nat m)"
    using pass_step [of "a + Suc m" a m c] by simp
  have tri: "(of_nat (tri m) :: 32 word) = of_nat m + of_nat (tri (m - Suc 0))"
    by (cases m) (simp_all add: tri_Suc)
  have rest: "alternate_outer (int (a + Suc m) + 1) (a + Suc m) (int (Suc a) + 1)
        (row_at (Suc a) m, c + of_nat m) =
      Inr (row_at (a + Suc m) 0, c + of_nat (tri (Suc m - 1)))"
    using Suc.IH [of "Suc a" "c + of_nat m"]
    by (simp add: tri ac_simps)
  have lt: "int (Suc a) < int (a + Suc m) + 1" by simp
  show ?case
    by (subst alternate_outer.simps) (simp only: lt if_True step rest sum.case)
qed

lemma even_pass_alternating:
  "alternate_inner (n * 2) 0 (alternating n, c) = Inr (alternating n, c)"
  using even_pass_struct [of "alternating n" n c]
    pairs_fix_alternating [of n "[]"] pairs_swaps_alternating [of n "[]"]
  by (simp add: mult.commute)

lemma alternate_outer_alternating:
  "alternate_outer (int n + 1) n 0 (alternating n, c) =
     Inr (row_at n 0, c + of_nat (tri (n - 1)))"
proof -
  have "alternate_outer (int n + 1) n (0 + 1) (alternating n, c) =
      Inr (row_at n 0, c + of_nat (tri (n - 1)))"
    using alternate_outer_family [of 0 n c] by simp
  then show ?thesis
    by (subst alternate_outer.simps) (simp add: even_pass_alternating)
qed

subsection \<open>The double-passes of sort\_lawnmower on the family\<close>

lemma forward_sweep_whole:
  "forward_sweep (length xs - 1) 0 (xs, c, h) =
     Inr (fwd xs, c + of_nat (fwd_swaps xs), h \<or> 0 < fwd_swaps xs)"
  using forward_sweep_struct [of "[]" 0 "length xs - 1" xs c h] by simp

lemma backward_sweep_whole:
  "xs \<noteq> [] \<Longrightarrow>
   backward_sweep (length xs - 1) (xs, c, h) =
     Inr (bwd xs, c + of_nat (bwd_swaps xs), h \<or> 0 < bwd_swaps xs)"
  using backward_sweep_struct [of xs "length xs - 1" "[]" c h] by simp

lemma lawnmower_outer_family:
  "lawnmower_outer (int p + int (k div 2)) (a + k) (int p) (row_at a k, c) =
     Inr (row_at (a + 2 * (k div 2)) (k mod 2), c + of_nat (tri (k - 1)),
          int p + int (k div 2))"
proof (induction k arbitrary: a p c rule: less_induct)
  case (less k)
  show ?case
  proof (cases "k < 2")
    case True
    then have k: "k div 2 = 0" "k mod 2 = k" "tri (k - Suc 0) = 0"
      by (auto simp add: less_2_cases_iff)
    show ?thesis
      by (subst lawnmower_outer.simps) (simp add: k)
  next
    case False
    then obtain m where k: "k = Suc (Suc m)"
      by (metis One_nat_def Suc_1 less_Suc_eq_0_disj not_less_eq old.nat.exhaust)
    have len: "length (row_at a k) - 1 = 2 * (a + k) - 1" by simp
    have f: "forward_sweep (2 * (a + k) - 1) 0 (row_at a k, c, False) =
        Inr (row_at (Suc a) (Suc m), c + of_nat (Suc m), True)"
      using forward_sweep_whole [of "row_at a k" c False]
      by (simp only: len) (simp add: k fwd_row_at fwd_swaps_row_at)
    have len': "length (row_at (Suc a) (Suc m)) - 1 = 2 * (a + k) - 1" by (simp add: k)
    have ne: "row_at (Suc a) (Suc m) \<noteq> []" by (simp add: row_at_def)
    have b: "backward_sweep (2 * (a + k) - 1) (row_at (Suc a) (Suc m), c + of_nat (Suc m), True) =
        Inr (row_at (Suc (Suc a)) m, c + of_nat (Suc m) + of_nat m, True)"
      using backward_sweep_whole [OF ne, of "c + of_nat (Suc m)" True]
      by (simp only: len') (simp add: bwd_row_at bwd_swaps_row_at)
    have tri: "(of_nat (tri (Suc m)) :: 32 word) =
        of_nat (Suc m) + of_nat m + of_nat (tri (m - Suc 0))"
      by (cases m) (simp_all add: tri_Suc)
    have rest: "lawnmower_outer (int p + int (k div 2)) (a + k) (int p + 1)
          (row_at (Suc (Suc a)) m, c + of_nat (Suc m) + of_nat m) =
        Inr (row_at (a + 2 * (k div 2)) (k mod 2),
             c + of_nat (tri (k - 1)), int p + int (k div 2))"
      using less.IH [of m "Suc p" "Suc (Suc a)" "c + of_nat (Suc m) + of_nat m"]
      by (simp add: k tri ac_simps)
    have lt: "int p < int p + int (k div 2)" by (simp add: k)
    show ?thesis
      by (subst lawnmower_outer.simps)
        (simp only: lt if_True fst_conv snd_conv f b rest sum.case prod.case not_True_eq_False
          if_False)
  qed
qed

lemma row_at_final: "row_at (2 * (n div 2)) (n mod 2) = row_at n 0"
proof (cases "even n")
  case True
  then show ?thesis by (auto elim: evenE)
next
  case False
  then obtain b where "n = Suc (2 * b)" by (auto elim: oddE)
  then show ?thesis by (simp add: row_at_last)
qed

lemma lawnmower_outer_alternating:
  "lawnmower_outer (int (n div 2)) n 0 (alternating n, c) =
     Inr (row_at n 0, c + of_nat (tri (n - 1)), int (n div 2))"
  using lawnmower_outer_family [of 0 n 0 c] by (simp add: row_at_final)

section \<open>Loop bounds, shape predicates, constructor\<close>

subsection \<open>Loop bounds\<close>

lemma int_of_size_small: "n < 2 ^ 31 \<Longrightarrow> int_of_size n = int n"
  unfolding int_of_size_def
  by (simp add: sint_uint signed_take_bit_int_eq_self unsigned_of_nat take_bit_nat_eq_self)

lemma int_add_small: "- (2 ^ 31) \<le> a + b \<Longrightarrow> a + b < 2 ^ 31 \<Longrightarrow> int_add a b = a + b"
  unfolding int_add_def
  by (simp add: sint_sbintrunc' signed_take_bit_int_eq_self del: of_int_add)

lemma alternate_bound_small: "n + 1 < 2 ^ 31 \<Longrightarrow> int_add (int_of_size n) 1 = int n + 1"
  by (simp add: int_of_size_small int_add_small)

lemma lawnmower_bound_small: "n < 2 ^ 31 \<Longrightarrow> lawnmower_bound n = int (n div 2)"
  by (simp add: lawnmower_bound_def int_of_size_small signed_divide_int_def sgn_if zdiv_int)

subsection \<open>The shape predicates\<close>

lemma nth_alternating:
  "k < 2 * n \<Longrightarrow> alternating n ! k = (if even k then DISK_LIGHT else DISK_DARK)"
proof (induction n arbitrary: k)
  case 0
  then show ?case by simp
next
  case (Suc n)
  show ?case
  proof (cases k)
    case 0
    then show ?thesis by simp
  next
    case (Suc k')
    show ?thesis
    proof (cases k')
      case 0
      then show ?thesis using Suc by simp
    next
      case (Suc k'')
      then show ?thesis using Suc.IH [of k''] Suc.prems \<open>k = Suc k'\<close> by simp
    qed
  qed
qed

lemma all_from_split:
  fixes i n :: nat
  assumes "i < n"
  shows "(\<forall>k. i \<le> k \<and> k < n \<longrightarrow> P k) \<longleftrightarrow> P i \<and> (\<forall>k. i + 1 \<le> k \<and> k < n \<longrightarrow> P k)"
    (is "?lhs \<longleftrightarrow> ?rhs")
proof
  assume l: ?lhs
  show ?rhs
  proof (intro conjI allI impI)
    from l have "i \<le> i \<and> i < n \<longrightarrow> P i" by (rule spec)
    then show "P i" using assms by simp
  next
    fix k
    assume k: "i + 1 \<le> k \<and> k < n"
    from l have "i \<le> k \<and> k < n \<longrightarrow> P k" by (rule spec)
    then show "P k" using k by simp
  qed
next
  assume r: ?rhs
  show ?lhs
  proof (intro allI impI)
    fix k
    assume k: "i \<le> k \<and> k < n"
    then have "k = i \<or> i + 1 \<le> k" by arith
    then show "P k" using r k by auto
  qed
qed

lemma is_initialized_from_iff:
  "is_initialized_from i s \<longleftrightarrow> (\<forall>k. i \<le> k \<and> k < length s \<longrightarrow> s ! k = expected k)"
proof (induction i s rule: is_initialized_from.induct)
  case (1 i s)
  show ?case
  proof (cases "i < total_count s")
    case False
    then have "is_initialized_from i s"
      by (subst is_initialized_from.simps) simp
    moreover have "\<forall>k. i \<le> k \<and> k < length s \<longrightarrow> s ! k = expected k"
      using False by (auto simp add: total_count_def)
    ultimately show ?thesis by blast
  next
    case True
    then have lt: "i < length s" by (simp add: total_count_def)
    note split = all_from_split [OF lt, of "\<lambda>k. s ! k = expected k"]
    show ?thesis
    proof (cases "s ! i = expected i")
      case ok: True
      have rec: "is_initialized_from i s = is_initialized_from (i + 1) s"
        using True ok
        by (subst is_initialized_from.simps) (simp add: expected_def even_iff_mod_2_eq_zero)
      have ih: "is_initialized_from (i + 1) s \<longleftrightarrow>
          (\<forall>k. i + 1 \<le> k \<and> k < length s \<longrightarrow> s ! k = expected k)"
      proof (cases "i mod 2 = 0")
        case even: True
        then have "s ! i \<noteq> DISK_DARK"
          using ok by (simp add: expected_def even_iff_mod_2_eq_zero)
        then show ?thesis using "1.IH"(1) [OF True even] by simp
      next
        case odd: False
        then have "s ! i \<noteq> DISK_LIGHT"
          using ok by (simp add: expected_def even_iff_mod_2_eq_zero)
        then show ?thesis using "1.IH"(2) [OF True odd] by simp
      qed
      show ?thesis
        unfolding rec ih split using ok by (simp only: simp_thms)
    next
      case bad: False
      have "\<not> is_initialized_from i s"
        using True bad
        by (subst is_initialized_from.simps)
          (cases "s ! i", auto simp add: expected_def even_iff_mod_2_eq_zero split: if_splits)
      then show ?thesis
        unfolding split using bad by (simp only: simp_thms)
    qed
  qed
qed

lemma is_initialized_iff:
  assumes len: "length s = 2 * n"
  shows "is_initialized s \<longleftrightarrow> s = alternating n"
  unfolding is_initialized_def is_initialized_from_iff
proof
  assume a: "\<forall>k. 0 \<le> k \<and> k < length s \<longrightarrow> s ! k = expected k"
  show "s = alternating n"
  proof (rule nth_equalityI)
    show "length s = length (alternating n)" using len by simp
  next
    fix k
    assume "k < length s"
    then show "s ! k = alternating n ! k"
      using a [rule_format, of k] len by (simp add: nth_alternating expected_def)
  qed
next
  assume "s = alternating n"
  then show "\<forall>k. 0 \<le> k \<and> k < length s \<longrightarrow> s ! k = expected k"
    by (simp add: nth_alternating expected_def)
qed

lemma is_sorted_light_iff:
  "is_sorted_light i s \<longleftrightarrow> (\<forall>k. i \<le> k \<and> k < dark_count s \<longrightarrow> s ! k = DISK_LIGHT)"
proof (induction i s rule: is_sorted_light.induct)
  case (1 i s)
  show ?case
  proof (cases "i < dark_count s")
    case False
    then show ?thesis by (subst is_sorted_light.simps) auto
  next
    case True
    have split: "(\<forall>k. i \<le> k \<and> k < dark_count s \<longrightarrow> s ! k = DISK_LIGHT) \<longleftrightarrow>
        s ! i = DISK_LIGHT \<and> (\<forall>k. i + 1 \<le> k \<and> k < dark_count s \<longrightarrow> s ! k = DISK_LIGHT)"
      using True by (intro all_from_split)
    show ?thesis
    proof (cases "s ! i = DISK_DARK")
      case dark: True
      then show ?thesis
        using True by (subst is_sorted_light.simps) auto
    next
      case False
      then have "s ! i = DISK_LIGHT" by (cases "s ! i") simp_all
      then show ?thesis
        using "1.IH" [OF True False] True
        by (subst is_sorted_light.simps) (simp add: split)
    qed
  qed
qed

lemma is_sorted_dark_iff:
  "is_sorted_dark i s \<longleftrightarrow> (\<forall>k. i \<le> k \<and> k < dark_count s * 2 \<longrightarrow> s ! k = DISK_DARK)"
proof (induction i s rule: is_sorted_dark.induct)
  case (1 i s)
  show ?case
  proof (cases "i < dark_count s * 2")
    case False
    then show ?thesis by (subst is_sorted_dark.simps) auto
  next
    case True
    have split: "(\<forall>k. i \<le> k \<and> k < dark_count s * 2 \<longrightarrow> s ! k = DISK_DARK) \<longleftrightarrow>
        s ! i = DISK_DARK \<and> (\<forall>k. i + 1 \<le> k \<and> k < dark_count s * 2 \<longrightarrow> s ! k = DISK_DARK)"
      using True by (intro all_from_split)
    show ?thesis
    proof (cases "s ! i = DISK_LIGHT")
      case light: True
      then show ?thesis
        using True by (subst is_sorted_dark.simps) auto
    next
      case False
      then have "s ! i = DISK_DARK" by (cases "s ! i") simp_all
      then show ?thesis
        using "1.IH" [OF True False] True
        by (subst is_sorted_dark.simps) (simp add: split)
    qed
  qed
qed

lemma is_sorted_iff:
  assumes "length s = 2 * n"
  shows "is_sorted s \<longleftrightarrow> s = replicate n DISK_LIGHT @ replicate n DISK_DARK"
proof -
  have dc: "dark_count s = n"
    using assms by (simp add: dark_count_def light_count_def total_count_def)
  have "is_sorted s \<longleftrightarrow>
      (\<forall>k. k < n \<longrightarrow> s ! k = DISK_LIGHT) \<and> (\<forall>k. n \<le> k \<and> k < n * 2 \<longrightarrow> s ! k = DISK_DARK)"
    by (simp add: is_sorted_def is_sorted_light_iff is_sorted_dark_iff dc)
  also have "\<dots> \<longleftrightarrow> s = replicate n DISK_LIGHT @ replicate n DISK_DARK"
  proof
    assume a: "(\<forall>k. k < n \<longrightarrow> s ! k = DISK_LIGHT) \<and> (\<forall>k. n \<le> k \<and> k < n * 2 \<longrightarrow> s ! k = DISK_DARK)"
    show "s = replicate n DISK_LIGHT @ replicate n DISK_DARK"
    proof (rule nth_equalityI)
      show "length s = length (replicate n DISK_LIGHT @ replicate n DISK_DARK)"
        using assms by simp
    next
      fix k
      assume "k < length s"
      then show "s ! k = (replicate n DISK_LIGHT @ replicate n DISK_DARK) ! k"
        using a assms by (cases "k < n") (simp_all add: nth_append)
    qed
  next
    assume "s = replicate n DISK_LIGHT @ replicate n DISK_DARK"
    then show "(\<forall>k. k < n \<longrightarrow> s ! k = DISK_LIGHT) \<and> (\<forall>k. n \<le> k \<and> k < n * 2 \<longrightarrow> s ! k = DISK_DARK)"
      by (auto simp add: nth_append)
  qed
  finally show ?thesis .
qed

subsection \<open>The constructor\<close>

lemma length_dark_loop [simp]: "length (dark_loop i colors) = length colors"
  by (induction i colors rule: dark_loop.induct) (subst dark_loop.simps, simp)

lemma nth_dark_loop:
  "k < length colors \<Longrightarrow>
   dark_loop i colors ! k = (if i \<le> k \<and> even (k - i) then DISK_DARK else colors ! k)"
proof (induction i colors arbitrary: k rule: dark_loop.induct)
  case (1 i colors)
  show ?case
  proof (cases "i < length colors")
    case False
    then show ?thesis using "1.prems" by (subst dark_loop.simps) simp
  next
    case True
    have "dark_loop (i + 2) (colors[i := DISK_DARK]) ! k =
        (if i + 2 \<le> k \<and> even (k - (i + 2)) then DISK_DARK else colors[i := DISK_DARK] ! k)"
      using "1.IH" [OF True, of k] "1.prems" by simp
    also have "\<dots> = (if i \<le> k \<and> even (k - i) then DISK_DARK else colors ! k)"
    proof (cases "k = i")
      case True
      then show ?thesis using \<open>i < length colors\<close> by simp
    next
      case False
      then have eq: "i + 2 \<le> k \<and> even (k - (i + 2)) \<longleftrightarrow> i \<le> k \<and> even (k - i)"
        by presburger
      have upd: "colors[i := DISK_DARK] ! k = colors ! k" using False by simp
      show ?thesis by (simp only: eq upd)
    qed
    finally show ?thesis using True by (subst dark_loop.simps) simp
  qed
qed

lemma dark_loop_alternating: "dark_loop 1 (replicate (2 * n) DISK_LIGHT) = alternating n"
  by (rule nth_equalityI) (auto simp add: nth_dark_loop nth_alternating not_le)

section \<open>The sorting functions as a whole\<close>

subsection \<open>The sorting functions on an initialized row\<close>

lemma tri_eq: "tri (n - Suc 0) = n * (n - Suc 0) div 2"
  by (cases n) (simp_all add: tri_def mult.commute)

lemma sort_alternate_alternating:
  assumes "0 < n" "n + 1 < 2 ^ 31"
  shows "sort_alternate (alternating n) =
    Inr \<lparr>after = row_at n 0, swap_count = of_nat (n * (n - 1) div 2)\<rparr>"
  using assms
  by (simp add: sort_alternate_def total_count_def alternate_bound_small
      alternate_outer_alternating tri_eq)

lemma lawnmower_run_alternating:
  assumes "n < 2 ^ 31"
  shows "lawnmower_run (alternating n) =
    Inr (row_at n 0, of_nat (n * (n - 1) div 2), int (n div 2))"
  using assms
  by (simp add: lawnmower_run_def total_count_def lawnmower_bound_small
      lawnmower_outer_alternating tri_eq)

lemma sort_lawnmower_alternating:
  assumes "n < 2 ^ 31"
  shows "sort_lawnmower (alternating n) =
    Inr \<lparr>after = row_at n 0, swap_count = of_nat (n * (n - 1) div 2)\<rparr>"
  by (simp add: sort_lawnmower_def lawnmower_run_alternating [OF assms])

lemma is_sorted_row_at: "is_sorted (row_at n 0)"
  using is_sorted_iff [of "row_at n 0" n] by (simp add: row_at_sorted)

lemma is_initialized_alternating: "is_initialized (alternating n)"
  using is_initialized_iff [of "alternating n" n] by simp

lemma not_sorted_alternating: "2 \<le> n \<Longrightarrow> \<not> is_sorted (alternating n)"
proof
  assume n: "2 \<le> n" and "is_sorted (alternating n)"
  then have "alternating n = replicate n DISK_LIGHT @ replicate n DISK_DARK"
    using is_sorted_iff [of "alternating n" n] by simp
  then have "alternating n ! 1 = (replicate n DISK_LIGHT @ replicate n DISK_DARK) ! 1"
    by simp
  then show False
    using n by (simp add: nth_alternating nth_append)
qed

lemma new_disk_state_alternating:
  assumes "0 < n" "2 * n \<le> vector_max_size" "2 * n \<le> available"
  shows "new_disk_state available n = Inr (alternating n)"
proof -
  have "2 * n < 2 ^ 64" using assms(2) by (simp add: vector_max_size_def)
  then have "(n * 2) mod 2 ^ 64 = 2 * n" by (simp add: mult.commute)
  then show ?thesis
    using assms dark_loop_alternating [of n] by (simp add: new_disk_state_def)
qed

subsection \<open>The sorting functions on a sorted row\<close>

lemma alternate_outer_in_order:
  assumes "sorted_wrt in_order xs" "length xs = n * 2" "0 < n"
  shows "alternate_outer bound n i (xs, c) = Inr (xs, c)"
proof (induction "nat (bound - i)" arbitrary: i)
  case 0
  then have "\<not> i < bound" by simp
  then show ?case by (subst alternate_outer.simps) simp
next
  case (Suc k)
  then have lt: "i < bound" and k: "k = nat (bound - (i + 1))" by simp_all
  have ev: "alternate_inner (n * 2) 0 (xs, c) = Inr (xs, c)"
    using even_pass_struct [of xs n c] assms
    by (simp add: pairs_fix_in_order pairs_swaps_in_order)
  obtain x xs' where xs: "xs = x # xs'" using assms(2,3) by (cases xs) auto
  have "sorted_wrt in_order xs'" using assms(1) xs by simp
  moreover have "length xs' = n * 2 - 1" using assms(2) xs by simp
  ultimately have od: "alternate_inner (n * 2 - 2) 1 (xs, c) = Inr (xs, c)"
    using odd_pass_struct [of xs' n x c] assms(3) xs
    by (simp add: pairs_fix_in_order pairs_swaps_in_order)
  show ?case
    using Suc.hyps(1) [OF k] lt ev od
    by (subst alternate_outer.simps) simp
qed

lemma lawnmower_outer_in_order:
  assumes "sorted_wrt in_order xs" "length xs = n * 2" "0 < n"
  shows "lawnmower_outer bound n i (xs, c) = Inr (xs, c, if i < bound then i + 1 else i)"
proof -
  have len: "2 * n - 1 = length xs - 1" using assms(2) by simp
  have ne: "xs \<noteq> []" using assms(2,3) by auto
  have f: "forward_sweep (2 * n - 1) 0 (xs, c, False) = Inr (xs, c, False)"
    unfolding len using forward_sweep_whole [of xs c False] assms(1)
    by (simp add: fwd_in_order fwd_swaps_in_order)
  have b: "backward_sweep (2 * n - 1) (xs, c, False) = Inr (xs, c, False)"
    unfolding len using backward_sweep_whole [OF ne, of c False] assms(1)
    by (simp add: bwd_in_order bwd_swaps_in_order)
  show ?thesis
  proof (cases "i < bound")
    case True
    then show ?thesis
      by (subst lawnmower_outer.simps)
        (simp only: if_True fst_conv snd_conv f b sum.case prod.case not_False_eq_True)
  next
    case False
    then show ?thesis
      by (subst lawnmower_outer.simps) (simp only: if_False fst_conv snd_conv)
  qed
qed

lemma sorted_row_in_order:
  assumes "length r = 2 * n" "is_sorted r"
  shows "sorted_wrt in_order r"
  using assms is_sorted_iff [of r n] by (simp add: sorted_wrt_row)

subsection \<open>Runs cut short by the loop bound, equality, sequences of swaps\<close>

lemma std_equal_refl: "std_equal xs xs"
  by (induction xs) simp_all

lemma operator_eq_refl: "operator_eq s s = Some True"
  by (simp add: operator_eq_def std_equal_refl)

lemma sort_alternate_skipped:
  assumes "0 < n" "length r = 2 * n" "int_add (int_of_size n) 1 \<le> 0"
  shows "sort_alternate r = Inr \<lparr>after = r, swap_count = 0\<rparr>"
proof -
  have "alternate_outer (int_add (int_of_size n) 1) n 0 (r, 0) = Inr (r, 0)"
    using assms(3) by (subst alternate_outer.simps) simp
  then show ?thesis
    using assms(1,2) by (simp add: sort_alternate_def total_count_def)
qed

lemma lawnmower_run_skipped:
  assumes "length r = 2 * n" "lawnmower_bound n \<le> 0"
  shows "lawnmower_run r = Inr (r, 0, 0)"
proof -
  have "lawnmower_outer (lawnmower_bound n) n 0 (r, 0) = Inr (r, 0, 0)"
    using assms(2) by (subst lawnmower_outer.simps) simp
  then show ?thesis
    using assms(1) by (simp add: lawnmower_run_def total_count_def)
qed

lemma alternate_outer_two:
  assumes "0 < n"
  shows "alternate_outer 2 n 0 (alternating n, c) = Inr (row_at 1 (n - 1), c + of_nat (n - 1))"
proof -
  obtain m where n: "n = Suc m" using assms by (cases n) auto
  have p0: "alternate_inner (n * 2) 0 (alternating n, c) = Inr (alternating n, c)"
    by (rule even_pass_alternating)
  have p1: "alternate_inner (n * 2 - 2) 1 (alternating n, c) = Inr (row_at 1 m, c + of_nat m)"
    using pass_step [of n 0 m c] n by simp
  have stop: "alternate_outer 2 n 2 (row_at 1 m, c + of_nat m) = Inr (row_at 1 m, c + of_nat m)"
    by (subst alternate_outer.simps) simp
  have second: "alternate_outer 2 n 1 (alternating n, c) = Inr (row_at 1 m, c + of_nat m)"
    by (subst alternate_outer.simps) (simp add: p1 stop del: One_nat_def)
  have m: "n - 1 = m" using n by simp
  show ?thesis
    by (subst alternate_outer.simps) (simp add: p0 second m del: One_nat_def)
qed

lemma sort_alternate_two_passes:
  assumes "0 < n" "int_add (int_of_size n) 1 = 2"
  shows "sort_alternate (alternating n) =
    Inr \<lparr>after = row_at 1 (n - 1), swap_count = of_nat (n - 1)\<rparr>"
  using assms by (simp add: sort_alternate_def total_count_def alternate_outer_two)

lemma nth_row_at_1: "0 < m \<Longrightarrow> row_at 1 m ! 1 = DISK_LIGHT"
  by (cases m) (simp_all add: row_at_def)

lemma swap_length: "swap s i = Inr s' \<Longrightarrow> length s' = length s"
  by (auto simp add: swap_def Let_def split: if_splits)

lemma swap_mset: "swap s i = Inr s' \<Longrightarrow> mset s' = mset s"
  by (auto simp add: swap_def Let_def is_index_def total_count_def mset_swap split: if_splits)

lemma swaps_preserve:
  "swaps s js = Inr t \<Longrightarrow> length t = length s \<and> mset t = mset s"
proof (induction js arbitrary: s)
  case Nil
  then show ?case by simp
next
  case (Cons j js)
  then obtain s' where s': "swap s j = Inr s'" and t: "swaps s' js = Inr t"
    by (auto split: sum.splits)
  show ?case
    using Cons.IH [OF t] swap_length [OF s'] swap_mset [OF s'] by simp
qed

section \<open>The claims\<close>

text \<open>
  Claim C1: for every \<open>n \<ge> 1\<close>, \<open>sort_alternate\<close> and \<open>sort_lawnmower\<close> applied to
  the initialized row of \<open>2 * n\<close> disks return a row for which \<open>is_sorted\<close> holds.

  Proved for \<open>1 \<le> n\<close> and \<open>n + 1 < 2 ^ 31\<close>, the counts for which the bound
  \<open>(int)n + 1\<close> of the outer loop of \<open>sort_alternate\<close> is \<open>n + 1\<close>: both functions
  return, and both final rows are sorted. The witness is the row \<open>L D L D\<close>.
  Beyond that range the claim fails: for \<open>n = 2 ^ 31\<close> the conversion \<open>(int)n\<close> is
  \<open>- 2 ^ 31\<close>, no pass runs, and \<open>sort_alternate\<close> returns its input, which is
  not sorted; for \<open>n = 2 ^ 31 - 1\<close> the sum \<open>(int)n + 1\<close> overflows, with the same
  result where the addition wraps (\<open>sort_alternate_unsorted_beyond_int\<close>).
\<close>

theorem initialized_row_sorted_by_both:
  assumes "1 \<le> n" and "n + 1 < 2 ^ 31" and "total_count r = 2 * n" and "is_initialized r"
  shows "(\<exists>res. sort_alternate r = Inr res \<and> is_sorted (after res)
            \<and> after res = replicate n DISK_LIGHT @ replicate n DISK_DARK) \<and>
         (\<exists>res. sort_lawnmower r = Inr res \<and> is_sorted (after res)
            \<and> after res = replicate n DISK_LIGHT @ replicate n DISK_DARK)"
proof -
  have r: "r = alternating n"
    using assms(3,4) is_initialized_iff [of r n] by (simp add: total_count_def)
  have a: "sort_alternate r =
      Inr \<lparr>after = row_at n 0, swap_count = of_nat (n * (n - 1) div 2)\<rparr>"
    unfolding r using assms(1,2) by (intro sort_alternate_alternating) simp_all
  have l: "sort_lawnmower r =
      Inr \<lparr>after = row_at n 0, swap_count = of_nat (n * (n - 1) div 2)\<rparr>"
    unfolding r using assms(2) by (intro sort_lawnmower_alternating) simp
  show ?thesis
    by (simp add: a l is_sorted_row_at row_at_sorted [symmetric])
qed

theorem initialized_row_sorted_by_both_witness:
  "(1::nat) \<le> 2 \<and> (2::nat) + 1 < 2 ^ 31
   \<and> total_count [DISK_LIGHT, DISK_DARK, DISK_LIGHT, DISK_DARK] = 2 * 2
   \<and> is_initialized [DISK_LIGHT, DISK_DARK, DISK_LIGHT, DISK_DARK]
   \<and> (\<exists>res. sort_alternate [DISK_LIGHT, DISK_DARK, DISK_LIGHT, DISK_DARK] = Inr res
          \<and> is_sorted (after res)
          \<and> after res = replicate 2 DISK_LIGHT @ replicate 2 DISK_DARK)
   \<and> (\<exists>res. sort_lawnmower [DISK_LIGHT, DISK_DARK, DISK_LIGHT, DISK_DARK] = Inr res
          \<and> is_sorted (after res)
          \<and> after res = replicate 2 DISK_LIGHT @ replicate 2 DISK_DARK)"
proof -
  have h: "is_initialized [DISK_LIGHT, DISK_DARK, DISK_LIGHT, DISK_DARK]"
    by code_simp
  show ?thesis
    using initialized_row_sorted_by_both [of 2 "[DISK_LIGHT, DISK_DARK, DISK_LIGHT, DISK_DARK]"] h
    by (simp add: total_count_def)
qed

theorem sort_alternate_unsorted_beyond_int:
  "new_disk_state 4294967296 2147483648 = Inr (alternating 2147483648)
   \<and> is_initialized (alternating 2147483648)
   \<and> total_count (alternating 2147483648) = 2 * 2147483648
   \<and> sort_alternate (alternating 2147483648) =
       Inr \<lparr>after = alternating 2147483648, swap_count = 0\<rparr>
   \<and> \<not> is_sorted (alternating 2147483648)
   \<and> sort_alternate (alternating 2147483647) =
       Inr \<lparr>after = alternating 2147483647, swap_count = 0\<rparr>
   \<and> \<not> is_sorted (alternating 2147483647)"
proof -
  have "new_disk_state 4294967296 2147483648 = Inr (alternating 2147483648)"
    by (rule new_disk_state_alternating) (simp_all add: vector_max_size_def)
  moreover have "int_add (int_of_size 2147483648) 1 \<le> 0"
    by (simp add: int_of_size_def int_add_def)
  then have "sort_alternate (alternating 2147483648) =
      Inr \<lparr>after = alternating 2147483648, swap_count = 0\<rparr>"
    by (intro sort_alternate_skipped [of 2147483648]) simp_all
  moreover have "\<not> is_sorted (alternating 2147483648)"
    by (rule not_sorted_alternating) simp
  moreover have "int_add (int_of_size 2147483647) 1 \<le> 0"
    by (simp add: int_of_size_def int_add_def)
  then have "sort_alternate (alternating 2147483647) =
      Inr \<lparr>after = alternating 2147483647, swap_count = 0\<rparr>"
    by (intro sort_alternate_skipped [of 2147483647]) simp_all
  moreover have "\<not> is_sorted (alternating 2147483647)"
    by (rule not_sorted_alternating) simp
  ultimately show ?thesis
    by (simp add: is_initialized_alternating total_count_def)
qed

text \<open>
  Claim C2: for every initialized row of \<open>2 * n\<close> disks, \<open>n \<ge> 1\<close>, the two sorting
  functions return equal final rows.

  Proved for \<open>1 \<le> n\<close> and \<open>n + 1 < 2 ^ 31\<close>: both functions return, the two final
  rows are the same list, and \<open>operator==\<close> of the header says so. The witness is the
  row of six disks. For \<open>n = 2 ^ 32 + 1\<close> the claim fails: \<open>(int)n\<close> is 1, so
  \<open>sort_alternate\<close> runs two passes and \<open>sort_lawnmower\<close> none, and the final rows
  differ at index 1. For \<open>n = 2 ^ 31 - 1\<close>, where \<open>(int)n + 1\<close> overflows,
  \<open>sort_alternate\<close> returns its input and \<open>sort_lawnmower\<close> the sorted row
  (\<open>sorts_differ_beyond_int\<close>).
\<close>

theorem both_sorts_same_final_row:
  assumes "1 \<le> n" and "n + 1 < 2 ^ 31" and "total_count r = 2 * n" and "is_initialized r"
  shows "\<exists>ra rl. sort_alternate r = Inr ra \<and> sort_lawnmower r = Inr rl
           \<and> after ra = after rl \<and> operator_eq (after ra) (after rl) = Some True"
proof -
  have r: "r = alternating n"
    using assms(3,4) is_initialized_iff [of r n] by (simp add: total_count_def)
  have a: "sort_alternate r =
      Inr \<lparr>after = row_at n 0, swap_count = of_nat (n * (n - 1) div 2)\<rparr>"
    unfolding r using assms(1,2) by (intro sort_alternate_alternating) simp_all
  have l: "sort_lawnmower r =
      Inr \<lparr>after = row_at n 0, swap_count = of_nat (n * (n - 1) div 2)\<rparr>"
    unfolding r using assms(2) by (intro sort_lawnmower_alternating) simp
  show ?thesis
    by (simp add: a l operator_eq_refl)
qed

theorem both_sorts_same_final_row_witness:
  "(1::nat) \<le> 3 \<and> (3::nat) + 1 < 2 ^ 31
   \<and> total_count [DISK_LIGHT, DISK_DARK, DISK_LIGHT, DISK_DARK, DISK_LIGHT, DISK_DARK] = 2 * 3
   \<and> is_initialized [DISK_LIGHT, DISK_DARK, DISK_LIGHT, DISK_DARK, DISK_LIGHT, DISK_DARK]
   \<and> (\<exists>ra rl.
         sort_alternate [DISK_LIGHT, DISK_DARK, DISK_LIGHT, DISK_DARK, DISK_LIGHT, DISK_DARK]
           = Inr ra
         \<and> sort_lawnmower [DISK_LIGHT, DISK_DARK, DISK_LIGHT, DISK_DARK, DISK_LIGHT, DISK_DARK]
           = Inr rl
         \<and> after ra = after rl \<and> operator_eq (after ra) (after rl) = Some True)"
proof -
  have h: "is_initialized [DISK_LIGHT, DISK_DARK, DISK_LIGHT, DISK_DARK, DISK_LIGHT, DISK_DARK]"
    by code_simp
  show ?thesis
    using both_sorts_same_final_row
      [of 3 "[DISK_LIGHT, DISK_DARK, DISK_LIGHT, DISK_DARK, DISK_LIGHT, DISK_DARK]"] h
    by (simp add: total_count_def)
qed

theorem sorts_differ_beyond_int:
  "new_disk_state 8589934594 4294967297 = Inr (alternating 4294967297)
   \<and> is_initialized (alternating 4294967297)
   \<and> sort_alternate (alternating 4294967297) =
       Inr \<lparr>after = row_at 1 4294967296, swap_count = 0\<rparr>
   \<and> sort_lawnmower (alternating 4294967297) =
       Inr \<lparr>after = alternating 4294967297, swap_count = 0\<rparr>
   \<and> row_at 1 4294967296 ! 1 = DISK_LIGHT
   \<and> alternating 4294967297 ! 1 = DISK_DARK
   \<and> sort_alternate (alternating 2147483647) =
       Inr \<lparr>after = alternating 2147483647, swap_count = 0\<rparr>
   \<and> map_sum id after (sort_lawnmower (alternating 2147483647)) =
       Inr (replicate 2147483647 DISK_LIGHT @ replicate 2147483647 DISK_DARK)
   \<and> alternating 2147483647 ! 1 = DISK_DARK
   \<and> (replicate 2147483647 DISK_LIGHT @ replicate 2147483647 DISK_DARK) ! 1 = DISK_LIGHT"
proof -
  have "new_disk_state 8589934594 4294967297 = Inr (alternating 4294967297)"
    by (rule new_disk_state_alternating) (simp_all add: vector_max_size_def)
  moreover have "int_add (int_of_size 4294967297) 1 = 2"
    by (simp add: int_of_size_def int_add_def)
  then have "sort_alternate (alternating 4294967297) =
      Inr \<lparr>after = row_at 1 (4294967297 - 1), swap_count = of_nat (4294967297 - 1)\<rparr>"
    by (intro sort_alternate_two_passes) simp_all
  then have "sort_alternate (alternating 4294967297) =
      Inr \<lparr>after = row_at 1 4294967296, swap_count = 0\<rparr>"
    by simp
  moreover have "lawnmower_bound 4294967297 \<le> 0"
    by (simp add: lawnmower_bound_def int_of_size_def signed_divide_int_def)
  then have "lawnmower_run (alternating 4294967297) = Inr (alternating 4294967297, 0, 0)"
    by (intro lawnmower_run_skipped [of _ 4294967297]) simp_all
  then have "sort_lawnmower (alternating 4294967297) =
      Inr \<lparr>after = alternating 4294967297, swap_count = 0\<rparr>"
    by (simp add: sort_lawnmower_def)
  moreover have "row_at 1 4294967296 ! 1 = DISK_LIGHT"
    by (rule nth_row_at_1) simp
  moreover have "alternating 4294967297 ! 1 = DISK_DARK"
    by (simp add: nth_alternating)
  moreover have "int_add (int_of_size 2147483647) 1 \<le> 0"
    by (simp add: int_of_size_def int_add_def)
  then have "sort_alternate (alternating 2147483647) =
      Inr \<lparr>after = alternating 2147483647, swap_count = 0\<rparr>"
    by (intro sort_alternate_skipped [of 2147483647]) simp_all
  moreover have "sort_lawnmower (alternating 2147483647) =
      Inr \<lparr>after = row_at 2147483647 0,
        swap_count = of_nat (2147483647 * (2147483647 - 1) div 2)\<rparr>"
    by (rule sort_lawnmower_alternating) simp
  then have "map_sum id after (sort_lawnmower (alternating 2147483647)) =
       Inr (replicate 2147483647 DISK_LIGHT @ replicate 2147483647 DISK_DARK)"
    by (simp add: row_at_sorted)
  moreover have "alternating 2147483647 ! 1 = DISK_DARK"
    by (simp add: nth_alternating)
  moreover have
    "(replicate 2147483647 DISK_LIGHT @ replicate 2147483647 DISK_DARK) ! 1 = DISK_LIGHT"
    by (simp add: nth_append)
  ultimately show ?thesis
    by (simp add: is_initialized_alternating)
qed

text \<open>
  Claim C3: \<open>sort_lawnmower\<close> runs up to \<open>\<lceil>n / 2\<rceil>\<close> double-passes, exactly that
  many unless a double-pass without a swap ends it early.

  The bound in the code is \<open>std::ceil((int)n / 2)\<close>: the division is an integer
  division, so the quotient is already rounded down when \<open>std::ceil\<close> sees it. On the
  initialized row of six disks (\<open>n = 3\<close>) the function runs one double-pass, in which
  swaps happen, and stops, where \<open>\<lceil>3 / 2\<rceil> = 2\<close>; on the row \<open>D L\<close> (\<open>n = 1\<close>) it
  runs none, where \<open>\<lceil>1 / 2\<rceil> = 1\<close>, and returns the row unsorted.
\<close>

theorem lawnmower_rounds_down:
  "lawnmower_run [DISK_LIGHT, DISK_DARK, DISK_LIGHT, DISK_DARK, DISK_LIGHT, DISK_DARK] =
     Inr ([DISK_LIGHT, DISK_LIGHT, DISK_LIGHT, DISK_DARK, DISK_DARK, DISK_DARK], 3, 1)
   \<and> lawnmower_bound 3 = 1
   \<and> \<lceil>(3::real) / 2\<rceil> = (2::int)
   \<and> lawnmower_run [DISK_DARK, DISK_LIGHT] = Inr ([DISK_DARK, DISK_LIGHT], 0, 0)
   \<and> \<lceil>(1::real) / 2\<rceil> = (1::int)
   \<and> is_sorted [DISK_DARK, DISK_LIGHT] = False"
proof -
  have "lawnmower_run [DISK_LIGHT, DISK_DARK, DISK_LIGHT, DISK_DARK, DISK_LIGHT, DISK_DARK] =
     Inr ([DISK_LIGHT, DISK_LIGHT, DISK_LIGHT, DISK_DARK, DISK_DARK, DISK_DARK], 3, 1)"
    by code_simp
  moreover have "lawnmower_bound 3 = 1"
    by code_simp
  moreover have "\<lceil>(3::real) / 2\<rceil> = (2::int)" "\<lceil>(1::real) / 2\<rceil> = (1::int)"
    by (simp_all add: ceiling_eq_iff)
  moreover have "lawnmower_run [DISK_DARK, DISK_LIGHT] = Inr ([DISK_DARK, DISK_LIGHT], 0, 0)"
    by code_simp
  moreover have "is_sorted [DISK_DARK, DISK_LIGHT] = False"
    by code_simp
  ultimately show ?thesis by (simp only: simp_thms)
qed

text \<open>
  Claim C4: on a row of even positive length for which \<open>is_sorted\<close> holds, both sorting
  functions return swap count 0 and the row they were given.
  The witness is the row \<open>L L D D\<close>.
\<close>

theorem sorted_row_unchanged:
  assumes "even (total_count r)" and "0 < total_count r" and "is_sorted r"
  shows "sort_alternate r = Inr \<lparr>after = r, swap_count = 0\<rparr> \<and>
         sort_lawnmower r = Inr \<lparr>after = r, swap_count = 0\<rparr>"
proof -
  from assms(1) obtain n where len: "length r = 2 * n"
    by (auto simp add: total_count_def elim: evenE)
  with assms(2) have n: "0 < n" by (simp add: total_count_def)
  have half: "total_count r div 2 = n" using len by (simp add: total_count_def)
  have ord: "sorted_wrt in_order r" using len assms(3) by (rule sorted_row_in_order)
  have len': "length r = n * 2" using len by simp
  have a: "alternate_outer bound n 0 (r, 0) = Inr (r, 0)" for bound
    using ord len' n by (rule alternate_outer_in_order)
  have l: "lawnmower_outer bound n 0 (r, 0) = Inr (r, 0, if 0 < bound then 0 + 1 else 0)" for bound
    using ord len' n by (rule lawnmower_outer_in_order)
  show ?thesis
    using n by (simp add: sort_alternate_def sort_lawnmower_def lawnmower_run_def half a l)
qed

theorem sorted_row_unchanged_witness:
  "even (total_count [DISK_LIGHT, DISK_LIGHT, DISK_DARK, DISK_DARK])
   \<and> 0 < total_count [DISK_LIGHT, DISK_LIGHT, DISK_DARK, DISK_DARK]
   \<and> is_sorted [DISK_LIGHT, DISK_LIGHT, DISK_DARK, DISK_DARK]
   \<and> sort_alternate [DISK_LIGHT, DISK_LIGHT, DISK_DARK, DISK_DARK] =
       Inr \<lparr>after = [DISK_LIGHT, DISK_LIGHT, DISK_DARK, DISK_DARK], swap_count = 0\<rparr>
   \<and> sort_lawnmower [DISK_LIGHT, DISK_LIGHT, DISK_DARK, DISK_DARK] =
       Inr \<lparr>after = [DISK_LIGHT, DISK_LIGHT, DISK_DARK, DISK_DARK], swap_count = 0\<rparr>"
proof -
  have h: "is_sorted [DISK_LIGHT, DISK_LIGHT, DISK_DARK, DISK_DARK]"
    by code_simp
  show ?thesis
    using sorted_row_unchanged [of "[DISK_LIGHT, DISK_LIGHT, DISK_DARK, DISK_DARK]"] h
    by (simp add: total_count_def)
qed

text \<open>
  Claim C5: \<open>operator==\<close> returns true if and only if the two rows have equal length
  and the same colour at every index.

  The code does not compare the lengths: the row of two disks compares equal to the row
  of four disks, both as the constructor makes them. With the operands exchanged the
  comparison reads past the end of the shorter row.
\<close>

theorem operator_eq_accepts_longer_row:
  "new_disk_state 2 1 = Inr [DISK_LIGHT, DISK_DARK]
   \<and> new_disk_state 4 2 = Inr [DISK_LIGHT, DISK_DARK, DISK_LIGHT, DISK_DARK]
   \<and> operator_eq [DISK_LIGHT, DISK_DARK] [DISK_LIGHT, DISK_DARK, DISK_LIGHT, DISK_DARK]
       = Some True
   \<and> total_count [DISK_LIGHT, DISK_DARK]
       \<noteq> total_count [DISK_LIGHT, DISK_DARK, DISK_LIGHT, DISK_DARK]
   \<and> operator_eq [DISK_LIGHT, DISK_DARK, DISK_LIGHT, DISK_DARK] [DISK_LIGHT, DISK_DARK]
       = None"
proof -
  have "new_disk_state 2 1 = Inr (alternating 1)"
    by (rule new_disk_state_alternating) (simp_all add: vector_max_size_def)
  then have "new_disk_state 2 1 = Inr [DISK_LIGHT, DISK_DARK]"
    by simp
  moreover have "new_disk_state 4 2 = Inr (alternating 2)"
    by (rule new_disk_state_alternating) (simp_all add: vector_max_size_def)
  then have "new_disk_state 4 2 = Inr [DISK_LIGHT, DISK_DARK, DISK_LIGHT, DISK_DARK]"
    by (simp add: numeral_2_eq_2)
  ultimately show ?thesis
    by (simp add: operator_eq_def total_count_def)
qed

text \<open>
  Claim C6: the constructor fails with \<open>ConstructionError\<close> for every \<open>n \<le> 0\<close>, in
  particular for 0 and for \<open>- 1\<close>, and for every \<open>n \<ge> 1\<close> it makes the initialized row of
  \<open>2 * n\<close> disks.

  Proved, for every amount of storage the allocator can provide: the constructor fails
  with \<open>ConstructionError\<close> for 0; for \<open>n \<ge> 1\<close> it makes a row of \<open>2 * n\<close> disks
  for which \<open>is_initialized\<close> holds when \<open>2 * n\<close> is at most \<open>max_size()\<close> of the
  vector and at most what the allocator can provide; it fails with \<open>std::bad_alloc\<close>
  when \<open>2 * n\<close> is at most \<open>max_size()\<close> and more than the allocator can provide,
  and with \<open>std::length_error\<close> when \<open>2 * n\<close> is above \<open>max_size()\<close> and below
  \<open>2 ^ 64\<close>. The witness is \<open>n = 2\<close>, with storage for four disks and for three,
  and \<open>n = 2 ^ 60\<close>.
  The parameter is a \<open>size_t\<close>, so no negative count reaches the assertion: \<open>- 1\<close>
  arrives as \<open>2 ^ 64 - 1\<close>, which is positive, and the failure is the
  \<open>std::length_error\<close> of the vector, thrown before the assertion is reached; so does
  \<open>n = 2 ^ 60\<close>, the first count with \<open>2 * n\<close> above \<open>max_size()\<close>. The
  product \<open>light_count * 2\<close> wraps: for \<open>n = 2 ^ 63\<close> the constructor returns the
  empty row. With storage for four disks, \<open>n = 3\<close> fails with \<open>std::bad_alloc\<close>
  (\<open>new_disk_state_minus_one\<close>).
\<close>

theorem new_disk_state_contract:
  "new_disk_state available 0 = Inl ConstructionError
   \<and> (1 \<le> n \<and> 2 * n \<le> vector_max_size \<and> 2 * n \<le> available \<longrightarrow>
        (\<exists>r. new_disk_state available n = Inr r \<and> total_count r = 2 * n
           \<and> is_initialized r))
   \<and> (1 \<le> n \<and> 2 * n \<le> vector_max_size \<and> available < 2 * n \<longrightarrow>
        new_disk_state available n = Inl BadAlloc)
   \<and> (vector_max_size < 2 * n \<and> 2 * n < 2 ^ 64 \<longrightarrow>
        new_disk_state available n = Inl LengthError)"
proof -
  have zero: "new_disk_state available 0 = Inl ConstructionError"
    by (simp add: new_disk_state_def)
  have made: "\<exists>r. new_disk_state available n = Inr r \<and> total_count r = 2 * n
      \<and> is_initialized r"
    if "1 \<le> n \<and> 2 * n \<le> vector_max_size \<and> 2 * n \<le> available"
    using that new_disk_state_alternating [of n available]
    by (simp add: total_count_def is_initialized_alternating)
  have small: "(n * 2) mod 2 ^ 64 = 2 * n" if "2 * n < 2 ^ 64"
    using that by (simp add: mult.commute)
  have no_memory: "new_disk_state available n = Inl BadAlloc"
    if h: "1 \<le> n \<and> 2 * n \<le> vector_max_size \<and> available < 2 * n"
  proof -
    from h have "2 * n < 2 ^ 64" by (simp add: vector_max_size_def)
    then show ?thesis using h small by (simp add: new_disk_state_def)
  qed
  have too_long: "new_disk_state available n = Inl LengthError"
    if h: "vector_max_size < 2 * n \<and> 2 * n < 2 ^ 64"
    using h small by (simp add: new_disk_state_def)
  show ?thesis using zero made no_memory too_long by blast
qed

theorem new_disk_state_contract_witness:
  "new_disk_state 4 0 = Inl ConstructionError
   \<and> (1::nat) \<le> 2 \<and> 2 * 2 \<le> vector_max_size \<and> (2 * 2::nat) \<le> 4
   \<and> (\<exists>r. new_disk_state 4 2 = Inr r \<and> total_count r = 2 * 2 \<and> is_initialized r)
   \<and> (3::nat) < 2 * 2
   \<and> new_disk_state 3 2 = Inl BadAlloc
   \<and> vector_max_size < 2 * 2 ^ 60 \<and> (2 * 2 ^ 60::nat) < 2 ^ 64
   \<and> new_disk_state 4 (2 ^ 60) = Inl LengthError"
proof -
  have h: "2 * 2 \<le> vector_max_size" "vector_max_size < 2 * 2 ^ 60"
    by (simp_all add: vector_max_size_def)
  show ?thesis
    using new_disk_state_contract [of 4 2] new_disk_state_contract [of 3 2]
      new_disk_state_contract [of 4 "2 ^ 60"] h
    by simp
qed

theorem new_disk_state_minus_one:
  "size_of_int (- 1) = 18446744073709551615
   \<and> new_disk_state vector_max_size (size_of_int (- 1)) = Inl LengthError
   \<and> new_disk_state vector_max_size (2 ^ 63) = Inr []
   \<and> 2 * 2 ^ 60 = vector_max_size + 1
   \<and> new_disk_state vector_max_size (2 ^ 60) = Inl LengthError
   \<and> new_disk_state 4 3 = Inl BadAlloc"
  by (simp add: new_disk_state_def size_of_int_def vector_max_size_def dark_loop.simps [of _ "[]"])

text \<open>
  Claim C7: \<open>get(i)\<close> returns the colour at \<open>i\<close> when \<open>i\<close> is below
  \<open>total_count()\<close> and fails with \<open>IndexOutOfRange\<close> otherwise; \<open>swap(left_index)\<close>
  fails with \<open>IndexOutOfRange\<close> exactly when \<open>left_index\<close> or \<open>left_index + 1\<close> is not
  below \<open>total_count()\<close>; on a row of four disks \<open>swap(3)\<close> and \<open>get(4)\<close> fail.
  The witness is the row \<open>L D L D\<close>.
\<close>

theorem get_and_swap_check_indices:
  "get s i = (if i < total_count s then Inr (s ! i) else Inl IndexOutOfRange)
   \<and> (swap s l = Inl IndexOutOfRange \<longleftrightarrow> \<not> (l < total_count s \<and> l + 1 < total_count s))
   \<and> ((\<exists>s'. swap s l = Inr s') \<longleftrightarrow> l < total_count s \<and> l + 1 < total_count s)
   \<and> (total_count s = 4 \<longrightarrow>
        swap s 3 = Inl IndexOutOfRange \<and> get s 4 = Inl IndexOutOfRange)"
  by (auto simp add: get_def swap_def is_index_def Let_def)

theorem get_and_swap_check_indices_witness:
  "total_count [DISK_LIGHT, DISK_DARK, DISK_LIGHT, DISK_DARK] = 4
   \<and> swap [DISK_LIGHT, DISK_DARK, DISK_LIGHT, DISK_DARK] 3 = Inl IndexOutOfRange
   \<and> get [DISK_LIGHT, DISK_DARK, DISK_LIGHT, DISK_DARK] 4 = Inl IndexOutOfRange
   \<and> get [DISK_LIGHT, DISK_DARK, DISK_LIGHT, DISK_DARK] 1 = Inr DISK_DARK"
proof -
  have h: "total_count [DISK_LIGHT, DISK_DARK, DISK_LIGHT, DISK_DARK] = 4"
    by (simp add: total_count_def)
  show ?thesis
    using get_and_swap_check_indices [of "[DISK_LIGHT, DISK_DARK, DISK_LIGHT, DISK_DARK]" 1 3]
      get_and_swap_check_indices [of "[DISK_LIGHT, DISK_DARK, DISK_LIGHT, DISK_DARK]" 4 3] h
    by simp
qed

text \<open>
  Claim C8: for valid \<open>left_index\<close>, \<open>swap\<close> exchanges the colours at \<open>left_index\<close>
  and \<open>left_index + 1\<close>, leaves every other slot as it was, and preserves
  \<open>total_count()\<close>, \<open>light_count()\<close>, \<open>dark_count()\<close> and the multiset of colours;
  hence the counts after any finite sequence of swaps are the counts before.
  The witness swaps at 1 in the row \<open>L D L D\<close>, and at 1, 0 and 2 in turn.
\<close>

theorem swap_exchanges_two_slots:
  "(is_index s l \<and> is_index s (l + 1) \<longrightarrow>
      (\<exists>s'. swap s l = Inr s'
         \<and> s' ! l = s ! (l + 1) \<and> s' ! (l + 1) = s ! l
         \<and> (\<forall>k. k < total_count s \<and> k \<noteq> l \<and> k \<noteq> l + 1 \<longrightarrow> s' ! k = s ! k)
         \<and> total_count s' = total_count s \<and> light_count s' = light_count s
         \<and> dark_count s' = dark_count s \<and> mset s' = mset s))
   \<and> (swaps s js = Inr t \<longrightarrow>
        total_count t = total_count s \<and> light_count t = light_count s
        \<and> dark_count t = dark_count s \<and> mset t = mset s)"
proof -
  have one: "\<exists>s'. swap s l = Inr s'
         \<and> s' ! l = s ! (l + 1) \<and> s' ! (l + 1) = s ! l
         \<and> (\<forall>k. k < total_count s \<and> k \<noteq> l \<and> k \<noteq> l + 1 \<longrightarrow> s' ! k = s ! k)
         \<and> total_count s' = total_count s \<and> light_count s' = light_count s
         \<and> dark_count s' = dark_count s \<and> mset s' = mset s"
    if "is_index s l \<and> is_index s (l + 1)"
  proof -
    from that have l: "Suc l < length s" by (simp add: is_index_def total_count_def)
    then have "swap s l = Inr (s[l := s ! Suc l, Suc l := s ! l])" by (rule swap_in_range)
    moreover from l have "mset (s[l := s ! Suc l, Suc l := s ! l]) = mset s"
      by (simp add: mset_swap)
    ultimately show ?thesis
      using l by (simp add: total_count_def light_count_def dark_count_def nth_list_update)
  qed
  have many: "total_count t = total_count s \<and> light_count t = light_count s
        \<and> dark_count t = dark_count s \<and> mset t = mset s"
    if "swaps s js = Inr t"
    using swaps_preserve [OF that] by (simp add: total_count_def light_count_def dark_count_def)
  show ?thesis using one many by blast
qed

theorem swap_exchanges_two_slots_witness:
  "is_index [DISK_LIGHT, DISK_DARK, DISK_LIGHT, DISK_DARK] 1
   \<and> is_index [DISK_LIGHT, DISK_DARK, DISK_LIGHT, DISK_DARK] (1 + 1)
   \<and> swap [DISK_LIGHT, DISK_DARK, DISK_LIGHT, DISK_DARK] 1 =
       Inr [DISK_LIGHT, DISK_LIGHT, DISK_DARK, DISK_DARK]
   \<and> swaps [DISK_LIGHT, DISK_DARK, DISK_LIGHT, DISK_DARK] [1, 0, 2] =
       Inr [DISK_LIGHT, DISK_LIGHT, DISK_DARK, DISK_DARK]
   \<and> light_count [DISK_LIGHT, DISK_LIGHT, DISK_DARK, DISK_DARK] =
       light_count [DISK_LIGHT, DISK_DARK, DISK_LIGHT, DISK_DARK]
   \<and> mset [DISK_LIGHT, DISK_LIGHT, DISK_DARK, DISK_DARK] =
       mset [DISK_LIGHT, DISK_DARK, DISK_LIGHT, DISK_DARK]"
proof -
  have h1: "is_index [DISK_LIGHT, DISK_DARK, DISK_LIGHT, DISK_DARK] 1
      \<and> is_index [DISK_LIGHT, DISK_DARK, DISK_LIGHT, DISK_DARK] (1 + 1)"
    by (simp add: is_index_def total_count_def)
  have h2: "swaps [DISK_LIGHT, DISK_DARK, DISK_LIGHT, DISK_DARK] [1, 0, 2] =
       Inr [DISK_LIGHT, DISK_LIGHT, DISK_DARK, DISK_DARK]"
    by code_simp
  have h3: "swap [DISK_LIGHT, DISK_DARK, DISK_LIGHT, DISK_DARK] 1 =
       Inr [DISK_LIGHT, DISK_LIGHT, DISK_DARK, DISK_DARK]"
    by code_simp
  show ?thesis
    using swap_exchanges_two_slots
      [of "[DISK_LIGHT, DISK_DARK, DISK_LIGHT, DISK_DARK]" 1 "[1, 0, 2]"
          "[DISK_LIGHT, DISK_LIGHT, DISK_DARK, DISK_DARK]"] h1 h2 h3
    by simp
qed

text \<open>
  Claim C9: for every \<open>n \<ge> 1\<close>, on the initialized row of \<open>2 * n\<close> disks both sorting
  functions return swap count \<open>n * (n - 1) / 2\<close>; for \<open>n = 2\<close> both return the row
  \<open>L L D D\<close> with swap count 1.

  Proved for \<open>1 \<le> n \<le> 92682\<close>, the counts for which \<open>n * (n - 1) / 2\<close> is below
  \<open>2 ^ 32\<close>: the swap count, read as the \<open>unsigned\<close> it is returned as, is
  \<open>n * (n - 1) / 2\<close> for both functions. The witness is \<open>n = 2\<close>, with the row and
  its printed form. For \<open>n = 92683\<close> the number of swaps is 4295022903, which no
  \<open>unsigned\<close> holds: both functions return 55607 (\<open>swap_count_wraps_at_92683\<close>).
\<close>

theorem swap_count_on_initialized_row:
  assumes "1 \<le> n" and "n \<le> 92682" and "total_count r = 2 * n" and "is_initialized r"
  shows "\<exists>ra rl. sort_alternate r = Inr ra \<and> sort_lawnmower r = Inr rl
           \<and> unat (swap_count ra) = n * (n - 1) div 2
           \<and> unat (swap_count rl) = n * (n - 1) div 2"
proof -
  have r: "r = alternating n"
    using assms(3,4) is_initialized_iff [of r n] by (simp add: total_count_def)
  have a: "sort_alternate r =
      Inr \<lparr>after = row_at n 0, swap_count = of_nat (n * (n - 1) div 2)\<rparr>"
    unfolding r using assms(1,2) by (intro sort_alternate_alternating) simp_all
  have l: "sort_lawnmower r =
      Inr \<lparr>after = row_at n 0, swap_count = of_nat (n * (n - 1) div 2)\<rparr>"
    unfolding r using assms(2) by (intro sort_lawnmower_alternating) simp
  have "n * (n - 1) \<le> 92682 * 92681"
    using assms(2) by (intro mult_le_mono) simp_all
  then have "n * (n - 1) div 2 < 2 ^ 32" by simp
  then have "unat (of_nat (n * (n - 1) div 2) :: 32 word) = n * (n - 1) div 2"
    by (simp add: unat_of_nat)
  then show ?thesis
    by (simp add: a l)
qed

theorem swap_count_on_initialized_row_witness:
  "(1::nat) \<le> 2 \<and> (2::nat) \<le> 92682
   \<and> total_count [DISK_LIGHT, DISK_DARK, DISK_LIGHT, DISK_DARK] = 2 * 2
   \<and> is_initialized [DISK_LIGHT, DISK_DARK, DISK_LIGHT, DISK_DARK]
   \<and> (\<exists>ra rl. sort_alternate [DISK_LIGHT, DISK_DARK, DISK_LIGHT, DISK_DARK] = Inr ra
         \<and> sort_lawnmower [DISK_LIGHT, DISK_DARK, DISK_LIGHT, DISK_DARK] = Inr rl
         \<and> unat (swap_count ra) = 2 * (2 - 1) div 2
         \<and> unat (swap_count rl) = 2 * (2 - 1) div 2)
   \<and> sort_alternate [DISK_LIGHT, DISK_DARK, DISK_LIGHT, DISK_DARK] =
       Inr \<lparr>after = [DISK_LIGHT, DISK_LIGHT, DISK_DARK, DISK_DARK], swap_count = 1\<rparr>
   \<and> sort_lawnmower [DISK_LIGHT, DISK_DARK, DISK_LIGHT, DISK_DARK] =
       Inr \<lparr>after = [DISK_LIGHT, DISK_LIGHT, DISK_DARK, DISK_DARK], swap_count = 1\<rparr>
   \<and> to_string [DISK_LIGHT, DISK_LIGHT, DISK_DARK, DISK_DARK] = ''L L D D''"
proof -
  have h: "is_initialized [DISK_LIGHT, DISK_DARK, DISK_LIGHT, DISK_DARK]"
    by code_simp
  have a: "sort_alternate [DISK_LIGHT, DISK_DARK, DISK_LIGHT, DISK_DARK] =
       Inr \<lparr>after = [DISK_LIGHT, DISK_LIGHT, DISK_DARK, DISK_DARK], swap_count = 1\<rparr>"
    by code_simp
  have l: "sort_lawnmower [DISK_LIGHT, DISK_DARK, DISK_LIGHT, DISK_DARK] =
       Inr \<lparr>after = [DISK_LIGHT, DISK_LIGHT, DISK_DARK, DISK_DARK], swap_count = 1\<rparr>"
    by code_simp
  have s: "to_string [DISK_LIGHT, DISK_LIGHT, DISK_DARK, DISK_DARK] = ''L L D D''"
    by code_simp
  have t: "\<exists>ra rl. sort_alternate [DISK_LIGHT, DISK_DARK, DISK_LIGHT, DISK_DARK] = Inr ra
         \<and> sort_lawnmower [DISK_LIGHT, DISK_DARK, DISK_LIGHT, DISK_DARK] = Inr rl
         \<and> unat (swap_count ra) = 2 * (2 - 1) div 2
         \<and> unat (swap_count rl) = 2 * (2 - 1) div 2"
    using swap_count_on_initialized_row [of 2 "[DISK_LIGHT, DISK_DARK, DISK_LIGHT, DISK_DARK]"] h
    by (simp add: total_count_def)
  show ?thesis
    using h a l s t by (simp only: simp_thms) (simp add: total_count_def)
qed

theorem swap_count_wraps_at_92683:
  "new_disk_state 185366 92683 = Inr (alternating 92683)
   \<and> is_initialized (alternating 92683)
   \<and> map_sum id (\<lambda>res. unat (swap_count res)) (sort_alternate (alternating 92683)) = Inr 55607
   \<and> map_sum id (\<lambda>res. unat (swap_count res)) (sort_lawnmower (alternating 92683)) = Inr 55607
   \<and> (92683::nat) * (92683 - 1) div 2 = 4295022903"
proof -
  have "new_disk_state 185366 92683 = Inr (alternating 92683)"
    by (rule new_disk_state_alternating) (simp_all add: vector_max_size_def)
  moreover have "sort_alternate (alternating 92683) =
      Inr \<lparr>after = row_at 92683 0, swap_count = of_nat (92683 * (92683 - 1) div 2)\<rparr>"
    by (rule sort_alternate_alternating) simp_all
  moreover have "sort_lawnmower (alternating 92683) =
      Inr \<lparr>after = row_at 92683 0, swap_count = of_nat (92683 * (92683 - 1) div 2)\<rparr>"
    by (rule sort_lawnmower_alternating) simp
  ultimately show ?thesis
    by (simp add: is_initialized_alternating)
qed

text \<open>
  Claim C10: on every row of two disks \<open>sort_lawnmower\<close> runs no double-pass (the bound
  of its outer loop is 0) and returns the row it was given with swap count 0, also when
  that row is \<open>D L\<close>, which is not sorted. The witness is the row \<open>D L\<close>.
\<close>

theorem lawnmower_two_disks_untouched:
  assumes "total_count r = 2"
  shows "lawnmower_bound (total_count r div 2) = 0
         \<and> lawnmower_run r = Inr (r, 0, 0)
         \<and> sort_lawnmower r = Inr \<lparr>after = r, swap_count = 0\<rparr>"
proof -
  have b: "lawnmower_bound 1 = 0" "lawnmower_bound (Suc 0) = 0"
    by (simp_all add: lawnmower_bound_def int_of_size_def signed_divide_int_def)
  have len: "length r = 2 * 1" using assms by (simp add: total_count_def)
  have run: "lawnmower_run r = Inr (r, 0, 0)"
    using len by (rule lawnmower_run_skipped) (simp add: b)
  show ?thesis
    using assms by (simp add: b run sort_lawnmower_def)
qed

theorem lawnmower_two_disks_untouched_witness:
  "total_count [DISK_DARK, DISK_LIGHT] = 2
   \<and> lawnmower_bound (total_count [DISK_DARK, DISK_LIGHT] div 2) = 0
   \<and> lawnmower_run [DISK_DARK, DISK_LIGHT] = Inr ([DISK_DARK, DISK_LIGHT], 0, 0)
   \<and> sort_lawnmower [DISK_DARK, DISK_LIGHT] =
       Inr \<lparr>after = [DISK_DARK, DISK_LIGHT], swap_count = 0\<rparr>
   \<and> is_sorted [DISK_DARK, DISK_LIGHT] = False"
proof -
  have h: "total_count [DISK_DARK, DISK_LIGHT] = 2"
    by (simp add: total_count_def)
  have u: "is_sorted [DISK_DARK, DISK_LIGHT] = False"
    by code_simp
  show ?thesis
    using lawnmower_two_disks_untouched [of "[DISK_DARK, DISK_LIGHT]"] h u
    by simp
qed

end
